theory Spec2Isabelle
  imports Main "HOL-Library.Word"
begin

section \<open>JavaScript strings\<close>

text \<open>
  A JavaScript string is a sequence of UTF-16 code units. A code unit is modelled as a
  natural number (no definition below depends on the bound \<open>2^16\<close>), a string as a list
  of code units, and \<open>length\<close> counts code units as \<open>String.prototype.length\<close> does.
  \<open>js\<close> turns a literal into such a string.
\<close>

type_synonym jschar = nat
type_synonym jsstring = "jschar list"

definition js :: "string \<Rightarrow> jsstring" where
  "js cs = map of_char cs"

text \<open>
  \<open>String.prototype.substring(start, end)\<close>: both indices are clamped to the length and
  swapped when \<open>start > end\<close>. \<open>substring_from\<close> is the one-argument form.
\<close>

definition substring :: "jsstring \<Rightarrow> nat \<Rightarrow> nat \<Rightarrow> jsstring" where
  "substring s a b =
     (let a' = min a (length s); b' = min b (length s);
          lo = min a' b'; hi = max a' b'
      in take (hi - lo) (drop lo s))"

definition substring_from :: "jsstring \<Rightarrow> nat \<Rightarrow> jsstring" where
  "substring_from s a = substring s a (length s)"

text \<open>
  The character classes of the regular expression. \<open>\s\<close> is WhiteSpace and
  LineTerminator of ECMAScript: TAB, LF, VT, FF, CR, SP, NBSP, U+1680, U+2000..U+200A,
  U+2028, U+2029, U+202F, U+205F, U+3000 and U+FEFF. \<open>\w\<close> is \<open>[A-Za-z0-9_]\<close>. With the
  \<open>s\<close> flag, \<open>.\<close> is every code unit.
\<close>

definition is_space :: "jschar \<Rightarrow> bool" where
  "is_space c \<longleftrightarrow>
     c = 9 \<or> c = 10 \<or> c = 11 \<or> c = 12 \<or> c = 13 \<or> c = 32 \<or> c = 160 \<or> c = 5760 \<or>
     (8192 \<le> c \<and> c \<le> 8202) \<or> c = 8232 \<or> c = 8233 \<or> c = 8239 \<or> c = 8287 \<or>
     c = 12288 \<or> c = 65279"

definition is_word :: "jschar \<Rightarrow> bool" where
  "is_word c \<longleftrightarrow>
     (48 \<le> c \<and> c \<le> 57) \<or> (65 \<le> c \<and> c \<le> 90) \<or> c = 95 \<or> (97 \<le> c \<and> c \<le> 122)"

definition any_char :: "jschar \<Rightarrow> bool" where
  "any_char c \<longleftrightarrow> True"

text \<open>
  \<open>String.prototype.trim\<close> removes the leading and the trailing run of the same code
  units as \<open>\s\<close>.
\<close>

definition trim :: "jsstring \<Rightarrow> jsstring" where
  "trim s = rev (dropWhile is_space (rev (dropWhile is_space s)))"

section \<open>The backtracking matcher of the regular expression\<close>

text \<open>
  The regular expression is embedded with the backtracking semantics of ECMAScript, in
  continuation-passing style as the language specification has it. A matcher takes a
  continuation, the input that remains at the current index, and the captures so far;
  it succeeds with the first choice for which the continuation succeeds, and the result
  is the input that remains after the whole match, with the captures. Captures map a
  group number to the captured substring (\<open>None\<close> for \<open>undefined\<close>). The expression has
  no anchor and no look-behind, so a match depends on the remaining input only.
\<close>

type_synonym captures = "nat \<Rightarrow> jsstring option"
type_synonym mresult = "(jsstring \<times> captures) option"
type_synonym cont = "jsstring \<Rightarrow> captures \<Rightarrow> mresult"
type_synonym matcher = "cont \<Rightarrow> jsstring \<Rightarrow> captures \<Rightarrow> mresult"

definition no_captures :: captures where
  "no_captures = (\<lambda>n. None)"

definition accept :: cont where
  "accept r c = Some (r, c)"

text \<open>A literal: the characters of \<open>w\<close> in turn.\<close>

fun strip_prefix :: "jsstring \<Rightarrow> jsstring \<Rightarrow> jsstring option" where
  "strip_prefix [] r = Some r"
| "strip_prefix (x # w) [] = None"
| "strip_prefix (x # w) (y # r) = (if x = y then strip_prefix w r else None)"

definition m_lit :: "jsstring \<Rightarrow> matcher" where
  "m_lit w k r c = (case strip_prefix w r of None \<Rightarrow> None | Some r' \<Rightarrow> k r' c)"

text \<open>Greedy \<open>X*\<close> over a character class: one more character first, then none.\<close>

fun m_star :: "(jschar \<Rightarrow> bool) \<Rightarrow> matcher" where
  "m_star P k [] c = k [] c"
| "m_star P k (x # r) c =
     (if P x
      then (case m_star P k r c of Some res \<Rightarrow> Some res | None \<Rightarrow> k (x # r) c)
      else k (x # r) c)"

text \<open>Lazy \<open>X*?\<close> over a character class: none first, then one more character.\<close>

fun m_lazy_star :: "(jschar \<Rightarrow> bool) \<Rightarrow> matcher" where
  "m_lazy_star P k [] c = k [] c"
| "m_lazy_star P k (x # r) c =
     (case k (x # r) c of
        Some res \<Rightarrow> Some res
      | None \<Rightarrow> if P x then m_lazy_star P k r c else None)"

text \<open>Greedy \<open>X+\<close> over a character class.\<close>

fun m_plus :: "(jschar \<Rightarrow> bool) \<Rightarrow> matcher" where
  "m_plus P k [] c = None"
| "m_plus P k (x # r) c = (if P x then m_star P k r c else None)"

text \<open>Greedy \<open>(?:M)?\<close>, sequence, alternation (left first), group \<open>n\<close>, back-reference \<open>\n\<close>.\<close>

definition m_opt :: "matcher \<Rightarrow> matcher" where
  "m_opt m k r c = (case m k r c of Some res \<Rightarrow> Some res | None \<Rightarrow> k r c)"

definition m_seq :: "matcher \<Rightarrow> matcher \<Rightarrow> matcher" where
  "m_seq m1 m2 k r c = m1 (m2 k) r c"

definition m_empty :: matcher where
  "m_empty k r c = k r c"

definition m_seqs :: "matcher list \<Rightarrow> matcher" where
  "m_seqs ms = foldr m_seq ms m_empty"

definition m_alt :: "matcher \<Rightarrow> matcher \<Rightarrow> matcher" where
  "m_alt m1 m2 k r c = (case m1 k r c of Some res \<Rightarrow> Some res | None \<Rightarrow> m2 k r c)"

definition m_group :: "nat \<Rightarrow> matcher \<Rightarrow> matcher" where
  "m_group n m k r c =
     m (\<lambda>r' c'. k r' (c'(n := Some (take (length r - length r') r)))) r c"

definition m_backref :: "nat \<Rightarrow> matcher" where
  "m_backref n k r c = (case c n of None \<Rightarrow> k r c | Some w \<Rightarrow> m_lit w k r c)"

text \<open>
  The three alternatives of \<open>blockRegex\<close>:
  \<^verbatim>\<open><(task|environment_details|thinking)>(.*?)<\/\1>\<close>,
  \<^verbatim>\<open>tool_code\s*```(?:\w+)?\s*\n(.*?)\s*```\<close> and
  \<^verbatim>\<open>tool_result\s*```(?:\w+)?\s*\n(.*?)\s*```\<close>.
\<close>

definition tag_alt :: matcher where
  "tag_alt = m_seqs
     [m_lit (js ''<''),
      m_group 1 (m_alt (m_lit (js ''task''))
                (m_alt (m_lit (js ''environment_details'')) (m_lit (js ''thinking'')))),
      m_lit (js ''>''),
      m_group 2 (m_lazy_star any_char),
      m_lit (js ''</''), m_backref 1, m_lit (js ''>'')]"

definition fence_alt :: "string \<Rightarrow> nat \<Rightarrow> matcher" where
  "fence_alt marker n = m_seqs
     [m_lit (js marker), m_star is_space, m_lit (js ''```''),
      m_opt (m_plus is_word), m_star is_space, m_lit (js ''\<newline>''),
      m_group n (m_lazy_star any_char),
      m_star is_space, m_lit (js ''```'')]"

definition blockRegex :: matcher where
  "blockRegex = m_alt tag_alt (m_alt (fence_alt ''tool_code'' 3) (fence_alt ''tool_result'' 4))"

text \<open>
  The match of \<open>blockRegex\<close> that starts at index \<open>i\<close> of \<open>s\<close>: the index of its end and
  its captures.
\<close>

definition match_at :: "jsstring \<Rightarrow> nat \<Rightarrow> (nat \<times> captures) option" where
  "match_at s i =
     (case blockRegex accept (drop i s) no_captures of
        None \<Rightarrow> None
      | Some (r', c) \<Rightarrow> Some (length s - length r', c))"

text \<open>
  \<open>blockRegex.exec(outputText)\<close> with the \<open>g\<close> flag and \<open>lastIndex = i\<close>: the start
  indices \<open>i, i + 1, ..., length s\<close> are tried in turn. The result is \<open>match.index\<close>, the
  new \<open>blockRegex.lastIndex\<close> and the captures; \<open>None\<close> is \<open>null\<close>.
\<close>

function regex_exec :: "jsstring \<Rightarrow> nat \<Rightarrow> (nat \<times> nat \<times> captures) option" where
  "regex_exec s i =
     (if length s < i then None
      else case match_at s i of
             Some (e, c) \<Rightarrow> Some (i, e, c)
           | None \<Rightarrow> regex_exec s (Suc i))"
  by pat_completeness auto
termination
  by (relation "measure (\<lambda>(s, i). Suc (length s) - i)") auto

declare regex_exec.simps [simp del]

subsection \<open>Every match is inside the string and not empty\<close>

text \<open>
  \<open>consumes n m\<close>: whenever \<open>m\<close> succeeds, its result is the result of its continuation
  on a suffix of the input, at least \<open>n\<close> characters further.
\<close>

definition consumes :: "nat \<Rightarrow> matcher \<Rightarrow> bool" where
  "consumes n m \<longleftrightarrow>
     (\<forall>k r c res. m k r c = Some res \<longrightarrow>
        (\<exists>p r' c'. r = p @ r' \<and> n \<le> length p \<and> k r' c' = Some res))"

lemma consumesD:
  "consumes n m \<Longrightarrow> m k r c = Some res \<Longrightarrow>
     \<exists>p r' c'. r = p @ r' \<and> n \<le> length p \<and> k r' c' = Some res"
  unfolding consumes_def by blast

lemma consumesI:
  "(\<And>k r c res. m k r c = Some res \<Longrightarrow>
      \<exists>p r' c'. r = p @ r' \<and> n \<le> length p \<and> k r' c' = Some res) \<Longrightarrow> consumes n m"
  unfolding consumes_def by blast

lemma consumes_weaken: "consumes n m \<Longrightarrow> n' \<le> n \<Longrightarrow> consumes n' m"
proof (rule consumesI)
  fix k r c res
  assume a: "consumes n m" and n: "n' \<le> n" and m: "m k r c = Some res"
  from consumesD [OF a m] obtain p r' c' where "r = p @ r'" "n \<le> length p" "k r' c' = Some res"
    by blast
  with n show "\<exists>p r' c'. r = p @ r' \<and> n' \<le> length p \<and> k r' c' = Some res"
    by (intro exI [of _ p] exI [of _ r'] exI [of _ c']) simp
qed

lemma strip_prefix_Some: "strip_prefix w r = Some r' \<longleftrightarrow> r = w @ r'"
  by (induction w r rule: strip_prefix.induct) auto

lemma strip_prefix_append [simp]: "strip_prefix w (w @ r) = Some r"
  by (simp add: strip_prefix_Some)

lemma consumes_lit: "consumes (length w) (m_lit w)"
proof (rule consumesI)
  fix k r c res
  assume "m_lit w k r c = Some res"
  then obtain r' where "strip_prefix w r = Some r'" "k r' c = Some res"
    by (auto simp: m_lit_def split: option.splits)
  then show "\<exists>p r' c'. r = p @ r' \<and> length w \<le> length p \<and> k r' c' = Some res"
    by (intro exI [of _ w] exI [of _ r'] exI [of _ c]) (simp add: strip_prefix_Some)
qed

lemma m_star_result: "m_star P k r c = Some res \<Longrightarrow> \<exists>p r'. r = p @ r' \<and> k r' c = Some res"
proof (induction r)
  case Nil
  then show ?case by simp
next
  case (Cons x r)
  show ?case
  proof (cases "m_star P k r c")
    case (Some res')
    show ?thesis
    proof (cases "P x")
      case True
      with Some Cons.prems have "m_star P k r c = Some res" by simp
      with Cons.IH obtain p r' where "r = p @ r'" "k r' c = Some res" by blast
      then show ?thesis by (intro exI [of _ "x # p"] exI [of _ r']) simp
    next
      case False
      with Cons.prems have "k (x # r) c = Some res" by simp
      then show ?thesis by (intro exI [of _ "[]"] exI [of _ "x # r"]) simp
    qed
  next
    case None
    with Cons.prems have "k (x # r) c = Some res" by (simp split: if_splits)
    then show ?thesis by (intro exI [of _ "[]"] exI [of _ "x # r"]) simp
  qed
qed

lemma consumes_star: "consumes 0 (m_star P)"
proof (rule consumesI)
  fix k r c res
  assume "m_star P k r c = Some res"
  from m_star_result [OF this] obtain p r' where "r = p @ r'" "k r' c = Some res" by blast
  then show "\<exists>p r' c'. r = p @ r' \<and> 0 \<le> length p \<and> k r' c' = Some res"
    by (intro exI [of _ p] exI [of _ r'] exI [of _ c]) simp
qed

lemma m_lazy_star_result:
  "m_lazy_star P k r c = Some res \<Longrightarrow> \<exists>p r'. r = p @ r' \<and> k r' c = Some res"
proof (induction r)
  case Nil
  then show ?case by simp
next
  case (Cons x r)
  show ?case
  proof (cases "k (x # r) c")
    case (Some res')
    with Cons.prems have "k (x # r) c = Some res" by simp
    then show ?thesis by (intro exI [of _ "[]"] exI [of _ "x # r"]) simp
  next
    case None
    with Cons.prems have "m_lazy_star P k r c = Some res" by (simp split: if_splits)
    with Cons.IH obtain p r' where "r = p @ r'" "k r' c = Some res" by blast
    then show ?thesis by (intro exI [of _ "x # p"] exI [of _ r']) simp
  qed
qed

lemma consumes_lazy_star: "consumes 0 (m_lazy_star P)"
proof (rule consumesI)
  fix k r c res
  assume "m_lazy_star P k r c = Some res"
  from m_lazy_star_result [OF this] obtain p r' where "r = p @ r'" "k r' c = Some res" by blast
  then show "\<exists>p r' c'. r = p @ r' \<and> 0 \<le> length p \<and> k r' c' = Some res"
    by (intro exI [of _ p] exI [of _ r'] exI [of _ c]) simp
qed

lemma consumes_plus: "consumes 1 (m_plus P)"
proof (rule consumesI)
  fix k r c res
  assume m: "m_plus P k r c = Some res"
  then obtain x xs where r: "r = x # xs" by (cases r) auto
  with m have "m_star P k xs c = Some res" by (simp split: if_splits)
  from m_star_result [OF this] obtain p r' where "xs = p @ r'" "k r' c = Some res" by blast
  with r show "\<exists>p r' c'. r = p @ r' \<and> 1 \<le> length p \<and> k r' c' = Some res"
    by (intro exI [of _ "x # p"] exI [of _ r'] exI [of _ c]) simp
qed

lemma consumes_opt: "consumes n m \<Longrightarrow> consumes 0 (m_opt m)"
proof (rule consumesI)
  fix k r c res
  assume a: "consumes n m" and m: "m_opt m k r c = Some res"
  show "\<exists>p r' c'. r = p @ r' \<and> 0 \<le> length p \<and> k r' c' = Some res"
  proof (cases "m k r c")
    case None
    with m have "k r c = Some res" by (simp add: m_opt_def)
    then show ?thesis by (intro exI [of _ "[]"] exI [of _ r] exI [of _ c]) simp
  next
    case (Some res')
    with m have "m k r c = Some res" by (simp add: m_opt_def)
    from consumesD [OF a this] show ?thesis by auto
  qed
qed

lemma consumes_seq: "consumes a m1 \<Longrightarrow> consumes b m2 \<Longrightarrow> consumes (a + b) (m_seq m1 m2)"
proof (rule consumesI)
  fix k r c res
  assume a1: "consumes a m1" and a2: "consumes b m2" and m: "m_seq m1 m2 k r c = Some res"
  from m have "m1 (m2 k) r c = Some res" by (simp add: m_seq_def)
  from consumesD [OF a1 this] obtain p r' c'
    where 1: "r = p @ r'" "a \<le> length p" "m2 k r' c' = Some res" by blast
  from consumesD [OF a2 1(3)] obtain q r'' c''
    where 2: "r' = q @ r''" "b \<le> length q" "k r'' c'' = Some res" by blast
  from 1 2 show "\<exists>p r' c'. r = p @ r' \<and> a + b \<le> length p \<and> k r' c' = Some res"
    by (intro exI [of _ "p @ q"] exI [of _ r''] exI [of _ c'']) simp
qed

lemma consumes_empty: "consumes 0 m_empty"
proof (rule consumesI)
  fix k r c res
  assume "m_empty k r c = Some res"
  then have "k r c = Some res" by (simp add: m_empty_def)
  then show "\<exists>p r' c'. r = p @ r' \<and> 0 \<le> length p \<and> k r' c' = Some res"
    by (intro exI [of _ "[]"] exI [of _ r] exI [of _ c]) simp
qed

lemma consumes_alt: "consumes n m1 \<Longrightarrow> consumes n m2 \<Longrightarrow> consumes n (m_alt m1 m2)"
proof (rule consumesI)
  fix k r c res
  assume a1: "consumes n m1" and a2: "consumes n m2" and m: "m_alt m1 m2 k r c = Some res"
  show "\<exists>p r' c'. r = p @ r' \<and> n \<le> length p \<and> k r' c' = Some res"
  proof (cases "m1 k r c")
    case None
    with m have "m2 k r c = Some res" by (simp add: m_alt_def)
    from consumesD [OF a2 this] show ?thesis .
  next
    case (Some res')
    with m have "m1 k r c = Some res" by (simp add: m_alt_def)
    from consumesD [OF a1 this] show ?thesis .
  qed
qed

lemma consumes_group: "consumes n m \<Longrightarrow> consumes n (m_group g m)"
proof (rule consumesI)
  fix k r c res
  assume a: "consumes n m" and m: "m_group g m k r c = Some res"
  from m have "m (\<lambda>r' c'. k r' (c'(g := Some (take (length r - length r') r)))) r c = Some res"
    by (simp add: m_group_def)
  from consumesD [OF a this] obtain p r' c' where "r = p @ r'" "n \<le> length p"
      "k r' (c'(g := Some (take (length r - length r') r))) = Some res"
    by blast
  then show "\<exists>p r' c'. r = p @ r' \<and> n \<le> length p \<and> k r' c' = Some res"
    by blast
qed

lemma consumes_backref: "consumes 0 (m_backref n)"
proof (rule consumesI)
  fix k r c res
  assume m: "m_backref n k r c = Some res"
  show "\<exists>p r' c'. r = p @ r' \<and> 0 \<le> length p \<and> k r' c' = Some res"
  proof (cases "c n")
    case None
    with m have "k r c = Some res" by (simp add: m_backref_def)
    then show ?thesis by (intro exI [of _ "[]"] exI [of _ r] exI [of _ c]) simp
  next
    case (Some w)
    with m have "m_lit w k r c = Some res" by (simp add: m_backref_def)
    from consumesD [OF consumes_lit this] show ?thesis by auto
  qed
qed

lemma consumes_lit0: "consumes 0 (m_lit w)"
  by (rule consumes_weaken [OF consumes_lit]) simp

lemma consumes_seq0: "consumes 0 m1 \<Longrightarrow> consumes 0 m2 \<Longrightarrow> consumes 0 (m_seq m1 m2)"
  using consumes_seq [of 0 m1 0 m2] by simp

lemma consumes_lit_seq: "consumes 0 m \<Longrightarrow> w \<noteq> [] \<Longrightarrow> consumes 1 (m_seq (m_lit w) m)"
  by (rule consumes_weaken [OF consumes_seq [OF consumes_lit]]) (auto simp: Suc_le_eq)

lemmas consumes0 =
  consumes_lit0 consumes_seq0 consumes_star consumes_lazy_star consumes_opt [OF consumes_plus]
  consumes_empty consumes_alt consumes_group consumes_backref

lemma consumes_tag_alt: "consumes 1 tag_alt"
  unfolding tag_alt_def m_seqs_def foldr.simps o_apply id_apply
  by (rule consumes_lit_seq) (intro consumes0, simp add: js_def)

lemma consumes_fence_alt: "marker \<noteq> [] \<Longrightarrow> consumes 1 (fence_alt marker n)"
  unfolding fence_alt_def m_seqs_def foldr.simps o_apply id_apply
  by (rule consumes_lit_seq) (intro consumes0, simp add: js_def)

lemma consumes_blockRegex: "consumes 1 blockRegex"
  unfolding blockRegex_def
  by (intro consumes_alt consumes_tag_alt consumes_fence_alt) simp_all

lemma match_at_bounds:
  assumes "match_at s i = Some (e, c)"
  shows "i < e \<and> e \<le> length s"
proof -
  from assms obtain r' where m: "blockRegex accept (drop i s) no_captures = Some (r', c)"
    and e: "e = length s - length r'"
    by (auto simp: match_at_def split: option.splits)
  from consumesD [OF consumes_blockRegex m] obtain p where p: "drop i s = p @ r'" "1 \<le> length p"
    by (auto simp: accept_def)
  have "length (drop i s) = length p + length r'"
    by (simp only: p length_append)
  then have "length s - i = length p + length r'"
    by simp
  with p e show ?thesis by arith
qed

lemma regex_exec_Some:
  "regex_exec s i = Some (st, e, c) \<Longrightarrow>
     i \<le> st \<and> st \<le> length s \<and> match_at s st = Some (e, c) \<and>
     (\<forall>j. i \<le> j \<and> j < st \<longrightarrow> match_at s j = None)"
proof (induction s i rule: regex_exec.induct)
  case (1 s i)
  from "1.prems" have le: "i \<le> length s"
    by (simp add: regex_exec.simps [of s i] split: if_splits)
  show ?case
  proof (cases "match_at s i")
    case None
    with "1.prems" le have "regex_exec s (Suc i) = Some (st, e, c)"
      by (simp add: regex_exec.simps [of s i])
    with "1.IH" le None
    have "Suc i \<le> st \<and> st \<le> length s \<and> match_at s st = Some (e, c) \<and>
       (\<forall>j. Suc i \<le> j \<and> j < st \<longrightarrow> match_at s j = None)"
      by simp
    then have a: "Suc i \<le> st" "st \<le> length s" "match_at s st = Some (e, c)"
      and b: "\<And>j. Suc i \<le> j \<Longrightarrow> j < st \<Longrightarrow> match_at s j = None"
      by auto
    have "match_at s j = None" if "i \<le> j" "j < st" for j
    proof (cases "j = i")
      case True
      with None show ?thesis by simp
    next
      case False
      with that have "Suc i \<le> j" by simp
      with b that show ?thesis by simp
    qed
    with a show ?thesis by simp
  next
    case (Some r)
    with "1.prems" le have "st = i" "r = (e, c)"
      by (auto simp: regex_exec.simps [of s i] split: prod.splits)
    with Some have "match_at s st = Some (e, c)" "i \<le> st" "\<not> i < st"
      by simp_all
    moreover have "match_at s j = None" if "i \<le> j \<and> j < st" for j
      using that \<open>st = i\<close> by arith
    ultimately show ?thesis using le \<open>st = i\<close> by blast
  qed
qed

lemma regex_exec_bounds:
  "regex_exec s i = Some (st, e, c) \<Longrightarrow> i \<le> st \<and> st < e \<and> e \<le> length s"
  using regex_exec_Some [of s i st e c] match_at_bounds [of s st e c] by simp

lemma regex_exec_None:
  "regex_exec s i = None \<Longrightarrow> i \<le> j \<Longrightarrow> j \<le> length s \<Longrightarrow> match_at s j = None"
proof (induction s i rule: regex_exec.induct)
  case (1 s i)
  from "1.prems" have le: "i \<le> length s" by simp
  from "1.prems" le have none: "match_at s i = None" and rec: "regex_exec s (Suc i) = None"
    by (auto simp: regex_exec.simps [of s i] split: option.splits)
  show ?case
  proof (cases "j = i")
    case True
    with none show ?thesis by simp
  next
    case False
    with "1.prems" have "Suc i \<le> j" by simp
    with "1.IH" le none rec "1.prems" show ?thesis by simp
  qed
qed

section \<open>The tokenizer \<open>parseClarifaiOutput\<close>\<close>

text \<open>
  \<open>ApiStreamChunk\<close>, restricted to the two variants the handler yields:
  \<open>{ type: "text", text }\<close> and \<open>{ type: "reasoning", text }\<close>.
\<close>

datatype chunk = Text (chunk_text: jsstring) | Reasoning (chunk_text: jsstring)

text \<open>A thrown JavaScript \<open>Error\<close> with its message.\<close>

datatype jserror = Error (message: jsstring)

text \<open>
  The \<open>TypeError\<close> that \<open>tagContent.trim()\<close> throws when \<open>tagContent\<close> is \<open>undefined\<close>.
  The wording of its message is the engine's; no match of \<open>blockRegex\<close> reaches it
  (\<open>parse_loop_no_error\<close> below).
\<close>

definition trim_of_undefined :: jserror where
  "trim_of_undefined = Error (js ''Cannot read properties of undefined'')"

text \<open>
  The \<open>yield\<close> before the classification: the text between the cursor and the match.
\<close>

definition text_before :: "jsstring \<Rightarrow> nat \<Rightarrow> nat \<Rightarrow> chunk list" where
  "text_before outputText lastIndex startIndex =
     (if startIndex > lastIndex then [Text (substring outputText lastIndex startIndex)] else [])"

text \<open>
  The classification of one match: \<open>fullMatch\<close> is \<open>match[0]\<close>, \<open>c 1 .. c 4\<close> are
  \<open>match[1] .. match[4]\<close>. \<open>if (tag)\<close> holds for a defined, non-empty string.
\<close>

definition classify :: "jsstring \<Rightarrow> captures \<Rightarrow> jserror + chunk list" where
  "classify fullMatch c =
     (let tag = c 1; tagContent = c 2; toolCodeContent = c 3; toolResultContent = c 4 in
      if tag \<noteq> None \<and> tag \<noteq> Some [] then
        (if tag = Some (js ''task'') \<or> tag = Some (js ''environment_details'') \<or>
            tag = Some (js ''thinking'')
         then (case tagContent of
                 None \<Rightarrow> Inl trim_of_undefined
               | Some x \<Rightarrow> Inr [Reasoning (trim x)])
         else Inr [Text fullMatch])
      else if toolCodeContent \<noteq> None then Inr [Text fullMatch]
      else if toolResultContent \<noteq> None then Inr [Text fullMatch]
      else Inr [])"

text \<open>
  The \<open>while\<close> loop with the cursor \<open>lastIndex\<close>, and the final \<open>yield\<close> of the tail. The
  result is the chunks yielded, in order, and the error thrown, if any.
\<close>

function parse_loop :: "jsstring \<Rightarrow> nat \<Rightarrow> chunk list \<times> jserror option" where
  "parse_loop outputText lastIndex =
     (case regex_exec outputText lastIndex of
        None \<Rightarrow>
          (if lastIndex < length outputText
           then [Text (substring_from outputText lastIndex)] else [], None)
      | Some (startIndex, e, c) \<Rightarrow>
          (case classify (substring outputText startIndex e) c of
             Inl err \<Rightarrow> (text_before outputText lastIndex startIndex, Some err)
           | Inr cs \<Rightarrow>
               (case parse_loop outputText e of
                  (rest, err) \<Rightarrow> (text_before outputText lastIndex startIndex @ cs @ rest, err))))"
  by pat_completeness auto
termination
proof (relation "measure (\<lambda>(s, i). length s - i)", goal_cases)
  case 1
  show ?case by simp
next
  case (2 outputText lastIndex x2 startIndex y e c)
  then have "regex_exec outputText lastIndex = Some (startIndex, e, c)" by simp
  from regex_exec_bounds [OF this]
  have "lastIndex < e" "e \<le> length outputText" by simp_all
  then show ?case by simp
qed

declare parse_loop.simps [simp del]

definition parseClarifaiOutput :: "jsstring \<Rightarrow> chunk list \<times> jserror option" where
  "parseClarifaiOutput outputText = parse_loop outputText 0"

section \<open>The handler: configuration, request and response\<close>

text \<open>
  The fields of \<open>ApiHandlerOptions\<close> that \<open>stream\<close> reads; \<open>None\<close> is \<open>undefined\<close>.
\<close>

record ApiHandlerOptions =
  clarifaiPat :: "jsstring option"
  apiModelId :: "jsstring option"
  clarifaiApiBaseUrl :: "jsstring option"

text \<open>
  \<open>Anthropic.MessageParam\<close>: a role and a content, which is a string or an array of
  content blocks. Only the \<open>text\<close> of a block of type \<open>text\<close> is read.
\<close>

datatype role = User | Assistant | OtherRole

datatype content_block = TextBlock jsstring | OtherBlock

datatype content = StringContent jsstring | ArrayContent "content_block list"

record message =
  role :: role
  content :: content

text \<open>
  The POST request: URL, headers and the \<open>raw\<close> text of the body
  \<open>{ inputs: [{ data: { text: { raw } } }] }\<close>.
\<close>

record request =
  url :: jsstring
  headers :: "(jsstring \<times> jsstring) list"
  raw :: jsstring

text \<open>
  An HTTP status or a status code of the backend: a non-negative safe integer, that is,
  an integer below \<open>2^53\<close>, which a JavaScript number holds exactly and a template
  literal prints with its decimal digits.
\<close>

type_synonym status_number = "53 word"

text \<open>
  The response body: \<open>outputs\<close>, each entry with its \<open>data.text.raw\<close> when that path
  exists, and \<open>status\<close> with its \<open>code\<close> and \<open>description\<close>.
\<close>

record envelope =
  outputs :: "jsstring option list option"
  status_code :: "status_number option"
  status_description :: "jsstring option"

text \<open>
  What \<open>await axios.post(...)\<close> does: it resolves with a status and a body; or it
  rejects with a cancellation (\<open>axios.isCancel\<close>), with another Axios error (its
  message and, when there is a response, the status and body), or with anything else
  (its message).
\<close>

datatype http_outcome =
  Resolved status_number "envelope option"
| Cancelled
| AxiosError jsstring "(status_number \<times> envelope option) option"
| OtherError jsstring

text \<open>One call of \<open>stream\<close>: the network requests made, the chunks yielded, the error thrown.\<close>

record stream_result =
  requests :: "request list"
  chunks :: "chunk list"
  thrown :: "jserror option"

text \<open>\<open>String.prototype.split\<close> with a one-character separator, and \<open>Array.prototype.join\<close>.\<close>

fun split_on :: "jschar \<Rightarrow> jsstring \<Rightarrow> jsstring list" where
  "split_on sep [] = [[]]"
| "split_on sep (x # r) =
     (if x = sep then [] # split_on sep r
      else (case split_on sep r of p # ps \<Rightarrow> (x # p) # ps | [] \<Rightarrow> [[x]]))"

fun join :: "jsstring \<Rightarrow> jsstring list \<Rightarrow> jsstring" where
  "join sep [] = []"
| "join sep [x] = x"
| "join sep (x # y # ys) = x @ sep @ join sep (y # ys)"

text \<open>The decimal digits of a natural number, and a status number in a template literal.\<close>

function show_nat :: "nat \<Rightarrow> jsstring" where
  "show_nat n = (if n < 10 then [48 + n] else show_nat (n div 10) @ [48 + n mod 10])"
  by pat_completeness auto
termination
  by (relation "measure (\<lambda>n. n)") auto

declare show_nat.simps [simp del]

definition number_text :: "status_number \<Rightarrow> jsstring" where
  "number_text n = show_nat (unat n)"

text \<open>The flattening of the exchange into \<open>inputText\<close>, one \<open>+=\<close> after the other.\<close>

definition content_text :: "content \<Rightarrow> jsstring" where
  "content_text c =
     (case c of
        ArrayContent items \<Rightarrow>
          join (js ''\<newline>'')
            (map (\<lambda>item. case item of TextBlock t \<Rightarrow> t | OtherBlock \<Rightarrow> []) items)
      | StringContent str \<Rightarrow> str)"

definition append_message :: "jsstring \<Rightarrow> message \<Rightarrow> jsstring" where
  "append_message inputText msg =
     (case role msg of
        User \<Rightarrow> ((inputText @ js ''User: '') @ content_text (content msg)) @ js ''\<newline>\<newline>''
      | Assistant \<Rightarrow>
          ((inputText @ js ''Assistant: '') @ content_text (content msg)) @ js ''\<newline>\<newline>''
      | OtherRole \<Rightarrow> inputText)"

definition build_input_text :: "jsstring \<Rightarrow> message list \<Rightarrow> jsstring" where
  "build_input_text systemPrompt messages =
     foldl append_message
       (if systemPrompt \<noteq> [] then [] @ js ''System: '' @ systemPrompt @ js ''\<newline>\<newline>'' else [])
       messages"

text \<open>
  The three checks before the request; \<open>!pat\<close> holds for \<open>undefined\<close> and for the empty
  string.
\<close>

definition config_error :: "ApiHandlerOptions \<Rightarrow> jserror option" where
  "config_error options =
     (case clarifaiPat options of
        None \<Rightarrow> Some (Error (js ''Clarifai Personal Access Token (PAT) is not configured.''))
      | Some pat \<Rightarrow>
     if pat = [] then Some (Error (js ''Clarifai Personal Access Token (PAT) is not configured.''))
     else
     (case apiModelId options of
        None \<Rightarrow> Some (Error (js ''Clarifai Model ID is not configured.''))
      | Some modelId \<Rightarrow>
     if modelId = [] then Some (Error (js ''Clarifai Model ID is not configured.''))
     else
       (let modelParts = split_on 47 modelId in
        if length modelParts \<noteq> 4 \<or> modelParts ! 2 \<noteq> js ''models''
        then Some (Error (js ''Invalid Clarifai Model ID format: '' @ modelId @
               js ''. Expected format: user_id/app_id/models/model_name.''))
        else None)))"

definition build_request :: "ApiHandlerOptions \<Rightarrow> jsstring \<Rightarrow> message list \<Rightarrow> request" where
  "build_request options systemPrompt messages =
     (let pat = (case clarifaiPat options of Some p \<Rightarrow> p | None \<Rightarrow> []);
          modelParts = split_on 47 (case apiModelId options of Some m \<Rightarrow> m | None \<Rightarrow> []);
          user_id = modelParts ! 0;
          app_id = modelParts ! 1;
          model_name = modelParts ! 3;
          baseUrl = (case clarifaiApiBaseUrl options of
                       None \<Rightarrow> js ''https://api.clarifai.com''
                     | Some b \<Rightarrow> if b = [] then js ''https://api.clarifai.com'' else b)
      in \<lparr>url = baseUrl @ js ''/v2/users/'' @ user_id @ js ''/apps/'' @ app_id @
                js ''/models/'' @ model_name @ js ''/outputs'',
          headers = [(js ''Authorization'', js ''Key '' @ pat),
                     (js ''Content-Type'', js ''application/json'')],
          raw = build_input_text systemPrompt messages\<rparr>)"

text \<open>
  The body of the \<open>try\<close> after the response arrived: the chunks yielded and the error
  thrown inside the \<open>try\<close>.
\<close>

definition full_output_text :: "jsstring option list \<Rightarrow> jsstring" where
  "full_output_text outs =
     foldl (\<lambda>fullOutputText output.
              case output of
                None \<Rightarrow> fullOutputText
              | Some r \<Rightarrow> if r \<noteq> [] then fullOutputText @ r @ js ''\<newline>'' else fullOutputText)
       [] outs"

definition api_error :: "jsstring \<Rightarrow> jsstring \<Rightarrow> jserror" where
  "api_error statusCode statusDescription =
     Error (js ''Clarifai API error ('' @ statusCode @ js ''): '' @ statusDescription)"

definition on_response :: "status_number \<Rightarrow> envelope option \<Rightarrow> chunk list \<times> jserror option" where
  "on_response status data =
     (let outs = (case data of None \<Rightarrow> None | Some d \<Rightarrow> outputs d) in
      if status = 200 \<and> (case outs of None \<Rightarrow> False | Some os \<Rightarrow> length os > 0) then
        (let fullOutputText = full_output_text (case outs of Some os \<Rightarrow> os | None \<Rightarrow> []) in
         if length fullOutputText > 0 then parseClarifaiOutput fullOutputText else ([], None))
      else
        (let statusDescription =
               (case (case data of None \<Rightarrow> None | Some d \<Rightarrow> status_description d) of
                  None \<Rightarrow> js ''Unknown error''
                | Some d \<Rightarrow> if d = [] then js ''Unknown error'' else d);
             statusCode =
               (case (case data of None \<Rightarrow> None | Some d \<Rightarrow> status_code d) of
                  None \<Rightarrow> status
                | Some c \<Rightarrow> if c = 0 then status else c)
         in ([], Some (api_error (number_text statusCode) statusDescription))))"

text \<open>
  The \<open>catch\<close> clause. An \<open>Error\<close> thrown inside the \<open>try\<close> is neither a cancellation nor
  an Axios error and is thrown again with a prefix; so is any other rejection. A
  cancellation is logged and nothing is thrown.
\<close>

definition rethrow :: "jsstring \<Rightarrow> jserror" where
  "rethrow msg = Error (js ''Clarifai stream error: '' @ msg)"

definition on_axios_error :: "jsstring \<Rightarrow> (status_number \<times> envelope option) option \<Rightarrow> jserror" where
  "on_axios_error msg response =
     (let data = (case response of None \<Rightarrow> None | Some (st, d) \<Rightarrow> d);
          statusDescription =
            (case (case data of None \<Rightarrow> None | Some d \<Rightarrow> status_description d) of
               None \<Rightarrow> msg
             | Some d \<Rightarrow> if d = [] then msg else d);
          statusCode =
            (case (case data of None \<Rightarrow> None | Some d \<Rightarrow> status_code d) of
               Some c \<Rightarrow> if c \<noteq> 0 then number_text c
                         else (case response of
                                 Some (st, d) \<Rightarrow> if st \<noteq> 0 then number_text st else js ''Network Error''
                               | None \<Rightarrow> js ''Network Error'')
             | None \<Rightarrow> (case response of
                          Some (st, d) \<Rightarrow> if st \<noteq> 0 then number_text st else js ''Network Error''
                        | None \<Rightarrow> js ''Network Error''))
      in api_error statusCode statusDescription)"

text \<open>
  \<open>stream\<close>. \<open>post\<close> is the network: what \<open>axios.post\<close> does with the request under the
  caller's abort signal.
\<close>

definition stream ::
  "ApiHandlerOptions \<Rightarrow> (request \<Rightarrow> http_outcome) \<Rightarrow> jsstring \<Rightarrow> message list \<Rightarrow> stream_result"
where
  "stream options post systemPrompt messages =
     (case config_error options of
        Some err \<Rightarrow> \<lparr>requests = [], chunks = [], thrown = Some err\<rparr>
      | None \<Rightarrow>
          (let req = build_request options systemPrompt messages in
           case post req of
             Resolved status data \<Rightarrow>
               (case on_response status data of
                  (cs, None) \<Rightarrow> \<lparr>requests = [req], chunks = cs, thrown = None\<rparr>
                | (cs, Some err) \<Rightarrow>
                    \<lparr>requests = [req], chunks = cs, thrown = Some (rethrow (message err))\<rparr>)
           | Cancelled \<Rightarrow> \<lparr>requests = [req], chunks = [], thrown = None\<rparr>
           | AxiosError msg response \<Rightarrow>
               \<lparr>requests = [req], chunks = [], thrown = Some (on_axios_error msg response)\<rparr>
           | OtherError msg \<Rightarrow> \<lparr>requests = [req], chunks = [], thrown = Some (rethrow msg)\<rparr>))"

section \<open>Properties of the tokenizer\<close>

subsection \<open>The loop, one iteration at a time\<close>

lemma substring_le: "a \<le> b \<Longrightarrow> b \<le> length s \<Longrightarrow> substring s a b = take (b - a) (drop a s)"
  by (simp add: substring_def min_def max_def)

lemma substring_from_drop: "a \<le> length s \<Longrightarrow> substring_from s a = drop a s"
  by (simp add: substring_from_def substring_le)

lemma regex_exec_NoneI:
  assumes "\<And>j. i \<le> j \<Longrightarrow> j \<le> length s \<Longrightarrow> match_at s j = None"
  shows "regex_exec s i = None"
proof (cases "regex_exec s i")
  case None
  then show ?thesis .
next
  case (Some r)
  obtain st e c where "r = (st, e, c)" by (cases r) auto
  with Some regex_exec_Some [of s i st e c]
  have "i \<le> st" "st \<le> length s" "match_at s st = Some (e, c)" by simp_all
  with assms [of st] show ?thesis by simp
qed

lemma parse_loop_None:
  "regex_exec s i = None \<Longrightarrow>
     parse_loop s i = (if i < length s then [Text (substring_from s i)] else [], None)"
  by (simp add: parse_loop.simps [of s i])

lemma parse_loop_Some:
  "regex_exec s i = Some (st, e, c) \<Longrightarrow> classify (substring s st e) c = Inr cs \<Longrightarrow>
     parse_loop s i = (text_before s i st @ cs @ fst (parse_loop s e), snd (parse_loop s e))"
  by (simp add: parse_loop.simps [of s i] split: prod.splits)

text \<open>The definitions a concrete run unfolds.\<close>

lemmas run_defs =
  js_def substring_def substring_from_def is_space_def is_word_def any_char_def trim_def
  no_captures_def accept_def m_lit_def m_opt_def m_seq_def m_empty_def m_seqs_def m_alt_def
  m_group_def m_backref_def tag_alt_def fence_alt_def blockRegex_def match_at_def
  regex_exec.simps text_before_def classify_def parse_loop.simps parseClarifaiOutput_def
  trim_of_undefined_def

section \<open>Plain text\<close>

text \<open>
  \<open>no_block s\<close>: the regular expression matches at no index of \<open>s\<close>, that is, \<open>s\<close> holds
  no recognized tag block and no recognized fenced block.
\<close>

definition no_block :: "jsstring \<Rightarrow> bool" where
  "no_block s \<longleftrightarrow> list_all (\<lambda>i. match_at s i = None) [0..<Suc (length s)]"

lemma no_block_iff: "no_block s \<longleftrightarrow> (\<forall>i\<le>length s. match_at s i = None)"
  by (auto simp: no_block_def list_all_iff less_Suc_eq_le)

text \<open>
  Claim C9. A non-empty raw response with no recognized tag or fenced block yields
  exactly one text chunk whose value is the whole input, and the empty input yields no
  chunk; nothing is thrown.
\<close>

theorem plain_text_single_chunk:
  "no_block s \<Longrightarrow> parseClarifaiOutput s = (if s = [] then [] else [Text s], None)"
proof -
  assume "no_block s"
  then have "regex_exec s 0 = None"
    by (intro regex_exec_NoneI) (simp add: no_block_iff)
  then show ?thesis
    by (simp add: parseClarifaiOutput_def parse_loop_None substring_from_drop)
qed

theorem plain_text_single_chunk_witness:
  "no_block (js ''2 < 3, no <task> here'') \<and> no_block [] \<and>
   parseClarifaiOutput (js ''2 < 3, no <task> here'') = ([Text (js ''2 < 3, no <task> here'')], None) \<and>
   parseClarifaiOutput [] = ([], None)"
proof -
  have 1: "no_block (js ''2 < 3, no <task> here'')"
    by (simp add: no_block_def run_defs)
  have 2: "no_block []"
    by (simp add: no_block_def run_defs)
  from plain_text_single_chunk [OF 1] plain_text_single_chunk [OF 2] 1 2 show ?thesis
    by (simp add: js_def)
qed

section \<open>What a tag block is\<close>

text \<open>
  \<open>split_first w r\<close> splits \<open>r\<close> at the first occurrence of \<open>w\<close>: the text before it and
  the text after it.
\<close>

fun split_first :: "jsstring \<Rightarrow> jsstring \<Rightarrow> (jsstring \<times> jsstring) option" where
  "split_first w [] = (case strip_prefix w [] of None \<Rightarrow> None | Some r' \<Rightarrow> Some ([], r'))"
| "split_first w (x # r) =
     (case strip_prefix w (x # r) of
        Some r' \<Rightarrow> Some ([], r')
      | None \<Rightarrow> (case split_first w r of None \<Rightarrow> None | Some (a, b) \<Rightarrow> Some (x # a, b)))"

text \<open>
  A block \<open><T>inner</T>\<close> at the head of \<open>r\<close>, closed by the first \<open></T>\<close> after the
  opening tag: the inner content and the text after the block. \<open>tag_block\<close> tries the
  three tag names in the order of the regular expression.
\<close>

definition tag_block_of :: "jsstring \<Rightarrow> jsstring \<Rightarrow> (jsstring \<times> jsstring) option" where
  "tag_block_of T r =
     (case strip_prefix (js ''<'' @ T @ js ''>'') r of
        None \<Rightarrow> None
      | Some r' \<Rightarrow> split_first (js ''</'' @ T @ js ''>'') r')"

definition tag_block :: "jsstring \<Rightarrow> (jsstring \<times> jsstring \<times> jsstring) option" where
  "tag_block r =
     (case tag_block_of (js ''task'') r of
        Some (a, b) \<Rightarrow> Some (js ''task'', a, b)
      | None \<Rightarrow>
     (case tag_block_of (js ''environment_details'') r of
        Some (a, b) \<Rightarrow> Some (js ''environment_details'', a, b)
      | None \<Rightarrow>
     (case tag_block_of (js ''thinking'') r of
        Some (a, b) \<Rightarrow> Some (js ''thinking'', a, b)
      | None \<Rightarrow> None)))"

lemma split_first_Some: "split_first w r = Some (a, b) \<Longrightarrow> r = a @ w @ b"
proof (induction r arbitrary: a)
  case Nil
  then show ?case by (auto simp: strip_prefix_Some split: option.splits)
next
  case (Cons x r)
  show ?case
  proof (cases "strip_prefix w (x # r)")
    case (Some r')
    with Cons.prems show ?thesis by (auto simp: strip_prefix_Some)
  next
    case None
    with Cons.prems obtain a' where "split_first w r = Some (a', b)" "a = x # a'"
      by (auto split: option.splits)
    with Cons.IH show ?thesis by simp
  qed
qed

lemma split_first_None_iff: "split_first w r = None \<longleftrightarrow> \<not> (\<exists>a b. r = a @ w @ b)"
proof
  assume "split_first w r = None"
  show "\<not> (\<exists>a b. r = a @ w @ b)"
  proof
    assume "\<exists>a b. r = a @ w @ b"
    then obtain a b where "r = a @ w @ b" by blast
    then have "split_first w r \<noteq> None"
    proof (induction a arbitrary: r)
      case Nil
      then have "strip_prefix w r = Some b" by (simp add: strip_prefix_Some)
      then show ?case by (cases r) simp_all
    next
      case (Cons x a)
      then have r: "r = x # (a @ w @ b)" by simp
      from Cons.IH [of "a @ w @ b"] have "split_first w (a @ w @ b) \<noteq> None" by simp
      with r show ?case by (auto split: option.splits)
    qed
    with \<open>split_first w r = None\<close> show False by simp
  qed
next
  assume n: "\<not> (\<exists>a b. r = a @ w @ b)"
  show "split_first w r = None"
  proof (cases "split_first w r")
    case None
    then show ?thesis .
  next
    case (Some p)
    then obtain a b where "split_first w r = Some (a, b)" by (cases p) auto
    from split_first_Some [OF this] n show ?thesis by blast
  qed
qed

lemma strip_prefix_app:
  "strip_prefix (u @ v) r =
     (case strip_prefix u r of None \<Rightarrow> None | Some r' \<Rightarrow> strip_prefix v r')"
  by (induction u r rule: strip_prefix.induct) auto

lemma lazy_star_split:
  assumes "\<And>r'. k r' c =
     (case strip_prefix w r' of None \<Rightarrow> None | Some r'' \<Rightarrow> Some (r'', g r'))"
  shows "m_lazy_star any_char k r c =
     (case split_first w r of None \<Rightarrow> None | Some (a, b) \<Rightarrow> Some (b, g (drop (length a) r)))"
proof (induction r)
  case Nil
  show ?case by (simp add: assms split: option.splits)
next
  case (Cons x r)
  show ?case
  proof (cases "strip_prefix w (x # r)")
    case (Some r')
    then show ?thesis by (simp add: assms)
  next
    case None
    then have "m_lazy_star any_char k (x # r) c = m_lazy_star any_char k r c"
      by (simp add: assms [of "x # r"] any_char_def)
    also note Cons.IH
    finally show ?thesis using None
      by (simp split: option.splits)
  qed
qed

lemma closing_tag:
  assumes "c 1 = Some T"
  shows "m_lit (js ''</'') (m_backref 1 (m_lit (js ''>'') (m_empty accept))) r c =
     (case strip_prefix (js ''</'' @ T @ js ''>'') r of None \<Rightarrow> None | Some r' \<Rightarrow> Some (r', c))"
  using assms
  by (simp add: m_lit_def m_backref_def m_empty_def accept_def strip_prefix_app
      split: option.splits)

lemma group_lazy_closing:
  assumes "c 1 = Some T"
  shows "m_group 2 (m_lazy_star any_char)
       (m_lit (js ''</'') (m_backref 1 (m_lit (js ''>'') (m_empty accept)))) r c =
     (case split_first (js ''</'' @ T @ js ''>'') r of
        None \<Rightarrow> None
      | Some (a, b) \<Rightarrow> Some (b, c(2 := Some a)))"
proof -
  let ?w = "js ''</'' @ T @ js ''>''"
  let ?g = "\<lambda>r'. c(2 := Some (take (length r - length r') r))"
  let ?k = "\<lambda>r' c'. m_lit (js ''</'') (m_backref 1 (m_lit (js ''>'') (m_empty accept))) r'
              (c'(2 := Some (take (length r - length r') r)))"
  have k: "?k r' c = (case strip_prefix ?w r' of None \<Rightarrow> None | Some r'' \<Rightarrow> Some (r'', ?g r'))"
    for r'
    using assms by (subst closing_tag [of _ T]) simp_all
  have "m_lazy_star any_char ?k r c =
     (case split_first ?w r of None \<Rightarrow> None | Some (a, b) \<Rightarrow> Some (b, ?g (drop (length a) r)))"
    by (rule lazy_star_split [where k = ?k and c = c and w = ?w and g = ?g]) (rule k)
  moreover have "?g (drop (length a) r) = c(2 := Some a)" if "split_first ?w r = Some (a, b)" for a b
    using split_first_Some [OF that] by simp
  ultimately show ?thesis
    by (auto simp: m_group_def split: option.splits)
qed

lemma one_tag:
  "m_lit (js ''<'') (m_group 1 (m_lit T) (m_lit (js ''>'')
       (m_group 2 (m_lazy_star any_char)
          (m_lit (js ''</'') (m_backref 1 (m_lit (js ''>'') (m_empty accept))))))) r c =
     (case tag_block_of T r of None \<Rightarrow> None | Some (a, b) \<Rightarrow> Some (b, c(1 := Some T, 2 := Some a)))"
proof -
  have "m_group 1 (m_lit T) k r1 c =
      (case strip_prefix T r1 of None \<Rightarrow> None | Some r2 \<Rightarrow> k r2 (c(1 := Some T)))" for k r1
    by (auto simp: m_group_def m_lit_def strip_prefix_Some split: option.splits)
  then show ?thesis
    by (simp add: m_lit_def [of "js ''<''"] m_lit_def [of "js ''>''" "m_group 2 _ _"]
        tag_block_of_def strip_prefix_app group_lazy_closing [of _ T] del: One_nat_def
        split: option.splits)
qed

lemma tag_alt_eq:
  "tag_alt accept r c =
     (case tag_block r of None \<Rightarrow> None | Some (T, a, b) \<Rightarrow> Some (b, c(1 := Some T, 2 := Some a)))"
proof -
  let ?K = "\<lambda>T. m_lit (js ''<'') (m_group 1 (m_lit T) (m_lit (js ''>'')
       (m_group 2 (m_lazy_star any_char)
          (m_lit (js ''</'') (m_backref 1 (m_lit (js ''>'') (m_empty accept))))))) r c"
  have "tag_alt accept r c =
     (case ?K (js ''task'') of Some res \<Rightarrow> Some res | None \<Rightarrow>
     (case ?K (js ''environment_details'') of Some res \<Rightarrow> Some res | None \<Rightarrow>
      ?K (js ''thinking'')))"
    unfolding tag_alt_def m_seqs_def foldr.simps o_apply id_apply m_seq_def
    by (simp add: m_lit_def [of "js ''<''"] m_group_def [of 1] m_alt_def del: One_nat_def
        split: option.splits)
  then show ?thesis
    by (simp add: one_tag tag_block_def del: One_nat_def split: option.splits)
qed

subsection \<open>The captures of a fenced match\<close>

text \<open>
  \<open>passes R m\<close>: whenever \<open>m\<close> succeeds, its result is the result of its continuation
  on captures related by \<open>R\<close> to the captures \<open>m\<close> started from.
\<close>

definition passes :: "(captures \<Rightarrow> captures \<Rightarrow> bool) \<Rightarrow> matcher \<Rightarrow> bool" where
  "passes R m \<longleftrightarrow>
     (\<forall>k r c res. m k r c = Some res \<longrightarrow> (\<exists>r' c'. R c c' \<and> k r' c' = Some res))"

lemma passesD: "passes R m \<Longrightarrow> m k r c = Some res \<Longrightarrow> \<exists>r' c'. R c c' \<and> k r' c' = Some res"
  unfolding passes_def by blast

lemma passesI:
  "(\<And>k r c res. m k r c = Some res \<Longrightarrow> \<exists>r' c'. R c c' \<and> k r' c' = Some res) \<Longrightarrow> passes R m"
  unfolding passes_def by blast

lemma passes_lit: "passes (=) (m_lit w)"
  by (rule passesI) (auto simp: m_lit_def split: option.splits)

lemma passes_star: "passes (=) (m_star P)"
  by (rule passesI) (auto dest: m_star_result)

lemma passes_lazy_star: "passes (=) (m_lazy_star P)"
  by (rule passesI) (auto dest: m_lazy_star_result)

lemma passes_opt_plus: "passes (=) (m_opt (m_plus P))"
proof (rule passesI)
  fix k r c res
  assume m: "m_opt (m_plus P) k r c = Some res"
  show "\<exists>r' c'. c = c' \<and> k r' c' = Some res"
  proof (cases "m_plus P k r c")
    case None
    with m show ?thesis by (auto simp: m_opt_def)
  next
    case (Some res')
    with m have "m_plus P k r c = Some res" by (simp add: m_opt_def)
    then obtain x xs where "r = x # xs" "m_star P k xs c = Some res"
      by (cases r) (auto split: if_splits)
    then show ?thesis by (auto dest: m_star_result)
  qed
qed

lemma passes_empty: "passes (=) m_empty"
  by (rule passesI) (auto simp: m_empty_def)

lemma passes_seq: "passes R m1 \<Longrightarrow> passes S m2 \<Longrightarrow> passes (R OO S) (m_seq m1 m2)"
proof (rule passesI)
  fix k r c res
  assume a1: "passes R m1" and a2: "passes S m2" and m: "m_seq m1 m2 k r c = Some res"
  from m have "m1 (m2 k) r c = Some res" by (simp add: m_seq_def)
  from passesD [OF a1 this] obtain r' c' where 1: "R c c'" "m2 k r' c' = Some res" by blast
  from passesD [OF a2 1(2)] obtain r'' c'' where 2: "S c' c''" "k r'' c'' = Some res" by blast
  from 1 2 show "\<exists>r' c'. (R OO S) c c' \<and> k r' c' = Some res" by blast
qed

lemma passes_group:
  "passes R m \<Longrightarrow> passes (R OO (\<lambda>c c'. \<exists>x. c' = c(g := Some x))) (m_group g m)"
proof (rule passesI)
  fix k r c res
  assume a: "passes R m" and m: "m_group g m k r c = Some res"
  from m have "m (\<lambda>r' c'. k r' (c'(g := Some (take (length r - length r') r)))) r c = Some res"
    by (simp add: m_group_def)
  from passesD [OF a this] obtain r' c' where "R c c'"
      "k r' (c'(g := Some (take (length r - length r') r))) = Some res"
    by blast
  then show "\<exists>r' c'. (R OO (\<lambda>c c'. \<exists>x. c' = c(g := Some x))) c c' \<and> k r' c' = Some res"
    by blast
qed

lemma passes_fence_alt: "passes (\<lambda>c c'. \<exists>x. c' = c(n := Some x)) (fence_alt marker n)"
proof -
  note passes_seq [OF passes_lit passes_seq [OF passes_star passes_seq [OF passes_lit
      passes_seq [OF passes_opt_plus passes_seq [OF passes_star passes_seq [OF passes_lit
      passes_seq [OF passes_group [OF passes_lazy_star] passes_seq [OF passes_star
      passes_seq [OF passes_lit passes_empty]]]]]]]]]
  then show ?thesis
    by (simp only: eq_OO OO_eq fence_alt_def m_seqs_def foldr.simps o_apply id_apply)
qed

lemma fence_alt_captures:
  "fence_alt marker n accept r c = Some (r', c') \<Longrightarrow> \<exists>x. c' = c(n := Some x)"
  by (auto dest!: passesD [OF passes_fence_alt] simp: accept_def)

text \<open>
  Every match of the regular expression is a tag block, with the tag in group 1 and the
  inner content in group 2, or a fenced block, with group 3 or group 4 defined and
  group 1 undefined.
\<close>

lemma match_at_cases:
  assumes "match_at s i = Some (e, c)"
  shows "(\<exists>T a b. tag_block (drop i s) = Some (T, a, b) \<and> e = length s - length b \<and>
            c = no_captures(1 := Some T, 2 := Some a)) \<or>
         (\<exists>x. c = no_captures(3 := Some x)) \<or> (\<exists>x. c = no_captures(4 := Some x))"
proof -
  from assms obtain r' where m: "blockRegex accept (drop i s) no_captures = Some (r', c)"
    and e: "e = length s - length r'"
    by (auto simp: match_at_def split: option.splits)
  show ?thesis
  proof (cases "tag_alt accept (drop i s) no_captures")
    case (Some res)
    with m have "tag_alt accept (drop i s) no_captures = Some (r', c)"
      by (simp add: blockRegex_def m_alt_def)
    with e show ?thesis
      by (auto simp: tag_alt_eq split: option.splits)
  next
    case None
    with m have "fence_alt ''tool_code'' 3 accept (drop i s) no_captures = Some (r', c) \<or>
        fence_alt ''tool_result'' 4 accept (drop i s) no_captures = Some (r', c)"
      by (auto simp: blockRegex_def m_alt_def split: option.splits)
    then show ?thesis
      by (auto dest: fence_alt_captures)
  qed
qed

subsection \<open>The classification of a match\<close>

definition tag_names :: "jsstring list" where
  "tag_names = [js ''task'', js ''environment_details'', js ''thinking'']"

lemma tag_block_of_Some:
  "tag_block_of T r = Some (a, b) \<Longrightarrow> r = js ''<'' @ T @ js ''>'' @ a @ js ''</'' @ T @ js ''>'' @ b"
  by (auto simp: tag_block_of_def strip_prefix_Some split: option.splits dest: split_first_Some)

lemma tag_block_Some:
  assumes "tag_block r = Some (T, a, b)"
  shows "T \<in> set tag_names \<and> tag_block_of T r = Some (a, b) \<and>
         r = js ''<'' @ T @ js ''>'' @ a @ js ''</'' @ T @ js ''>'' @ b"
proof -
  from assms have "T \<in> set tag_names \<and> tag_block_of T r = Some (a, b)"
    by (auto simp: tag_block_def tag_names_def split: option.splits)
  with tag_block_of_Some [of T r a b] show ?thesis by simp
qed

lemma classify_tag:
  "T \<in> set tag_names \<Longrightarrow>
     classify full (no_captures(1 := Some T, 2 := Some a)) = Inr [Reasoning (trim a)]"
  by (auto simp: classify_def tag_names_def js_def)

lemma classify_tool_code:
  "classify full (no_captures(3 := Some x)) = Inr [Text full]"
  by (simp add: classify_def no_captures_def)

lemma classify_tool_result:
  "classify full (no_captures(4 := Some x)) = Inr [Text full]"
  by (simp add: classify_def no_captures_def)

lemma match_at_substring:
  assumes "tag_block (drop i s) = Some (T, a, b)" and "i \<le> length s"
  shows "substring s i (length s - length b) = js ''<'' @ T @ js ''>'' @ a @ js ''</'' @ T @ js ''>''"
proof -
  let ?m = "js ''<'' @ T @ js ''>'' @ a @ js ''</'' @ T @ js ''>''"
  from tag_block_Some [OF assms(1)] have d: "drop i s = ?m @ b" by simp
  then have "length (drop i s) = length ?m + length b" by (simp only: length_append)
  with assms(2) have l: "length s - length b = i + length ?m" by simp
  then have "substring s i (length s - length b) = take (length ?m) (drop i s)"
    using assms(2) by (subst substring_le) simp_all
  also have "\<dots> = ?m" by (simp only: d) simp
  finally show ?thesis .
qed

text \<open>One iteration of the loop on a match: what is yielded, by the kind of the match.\<close>

lemma parse_loop_step:
  assumes "regex_exec s i = Some (st, e, c)"
  shows "(\<exists>T a. T \<in> set tag_names \<and> c 1 = Some T \<and> c 2 = Some a \<and>
            substring s st e = js ''<'' @ T @ js ''>'' @ a @ js ''</'' @ T @ js ''>'' \<and>
            parse_loop s i =
              (text_before s i st @ [Reasoning (trim a)] @ fst (parse_loop s e),
               snd (parse_loop s e))) \<or>
         (c 1 = None \<and> (c 3 \<noteq> None \<or> c 4 \<noteq> None) \<and>
            parse_loop s i =
              (text_before s i st @ [Text (substring s st e)] @ fst (parse_loop s e),
               snd (parse_loop s e)))"
proof -
  from regex_exec_Some [OF assms] have st: "st \<le> length s" and m: "match_at s st = Some (e, c)"
    by simp_all
  from match_at_cases [OF m] consider
    (tag) T a b where "tag_block (drop st s) = Some (T, a, b)" "e = length s - length b"
      "c = no_captures(1 := Some T, 2 := Some a)"
    | (code) x where "c = no_captures(3 := Some x)"
    | (result) x where "c = no_captures(4 := Some x)"
    by blast
  then show ?thesis
  proof cases
    case tag
    from tag_block_Some [OF tag(1)] have T: "T \<in> set tag_names" by simp
    from match_at_substring [OF tag(1) st] tag(2)
    have sub: "substring s st e = js ''<'' @ T @ js ''>'' @ a @ js ''</'' @ T @ js ''>''"
      by simp
    from tag(3) have c: "c 1 = Some T" "c 2 = Some a" by simp_all
    from classify_tag [OF T] tag(3) have "classify (substring s st e) c = Inr [Reasoning (trim a)]"
      by simp
    from parse_loop_Some [OF assms this] T sub c show ?thesis by blast
  next
    case code
    then have c: "c 1 = None" "c 3 \<noteq> None" by (simp_all add: no_captures_def)
    from classify_tool_code code
    have "classify (substring s st e) c = Inr [Text (substring s st e)]" by simp
    from parse_loop_Some [OF assms this] c show ?thesis by blast
  next
    case result
    then have c: "c 1 = None" "c 4 \<noteq> None" by (simp_all add: no_captures_def)
    from classify_tool_result result
    have "classify (substring s st e) c = Inr [Text (substring s st e)]" by simp
    from parse_loop_Some [OF assms this] c show ?thesis by blast
  qed
qed

subsection \<open>A single block\<close>

lemma split_first_None_Cons:
  "split_first w (x # r) = None \<Longrightarrow> strip_prefix w (x # r) = None \<and> split_first w r = None"
  by (auto split: option.splits)

lemma strip_prefix_self [simp]: "strip_prefix w w = Some []"
  by (simp add: strip_prefix_Some)

lemma strip_prefix_overlap:
  assumes w: "w = x0 # w'" "x0 \<notin> set w'"
    and none: "strip_prefix w X = None"
  shows "X = [] \<or> strip_prefix w (X @ w @ b) = None"
proof (cases "strip_prefix w (X @ w @ b)")
  case None
  then show ?thesis by simp
next
  case (Some r')
  then have "X @ w @ b = w @ r'" by (simp add: strip_prefix_Some)
  then consider us where "X = w @ us" | us where "X @ us = w" "w @ b = us @ r'"
    by (auto simp: append_eq_append_conv2)
  then show ?thesis
  proof cases
    case 1
    with none show ?thesis by simp
  next
    case 2
    show ?thesis
    proof (cases us)
      case Nil
      with 2 none show ?thesis by simp
    next
      case (Cons u us')
      with 2(2) w have "u = x0" by simp
      show ?thesis
      proof (cases X)
        case Nil
        then show ?thesis by simp
      next
        case (Cons y X')
        with 2(1) \<open>us = u # us'\<close> \<open>u = x0\<close> w have "w' = X' @ x0 # us'" by simp
        with w show ?thesis by simp
      qed
    qed
  qed
qed

lemma split_first_append:
  assumes w: "w = x0 # w'" "x0 \<notin> set w'"
  shows "split_first w X = None \<Longrightarrow> split_first w (X @ w @ b) = Some (X, b)"
proof (induction X)
  case Nil
  from w show ?case by (cases "w @ b") simp_all
next
  case (Cons x X)
  from split_first_None_Cons [OF Cons.prems]
  have 1: "strip_prefix w (x # X) = None" and 2: "split_first w X = None" by simp_all
  from strip_prefix_overlap [OF w 1] have "strip_prefix w ((x # X) @ w @ b) = None" by simp
  with Cons.IH [OF 2] show ?case by simp
qed

lemma single_thinking_block:
  assumes "split_first (js ''</thinking>'') X = None"
  shows "parseClarifaiOutput (js ''<thinking>'' @ X @ js ''</thinking>'') = ([Reasoning (trim X)], None)"
proof -
  let ?s = "js ''<thinking>'' @ X @ js ''</thinking>''"
  have "split_first (js ''</thinking>'') (X @ js ''</thinking>'' @ []) = Some (X, [])"
    by (rule split_first_append [OF _ _ assms, of 60 "js ''/thinking>''"]) (simp_all add: js_def)
  then have "tag_block_of (js ''thinking'') ?s = Some (X, [])"
    by (simp add: tag_block_of_def strip_prefix_app js_def)
  moreover have "tag_block_of (js ''task'') ?s = None"
    "tag_block_of (js ''environment_details'') ?s = None"
    by (simp_all add: tag_block_of_def js_def)
  ultimately have tb: "tag_block ?s = Some (js ''thinking'', X, [])"
    by (simp add: tag_block_def)
  then have "match_at ?s 0 = Some (length ?s, no_captures(1 := Some (js ''thinking''), 2 := Some X))"
    by (simp add: match_at_def blockRegex_def m_alt_def tag_alt_eq del: One_nat_def)
  then have ex: "regex_exec ?s 0 =
      Some (0, length ?s, no_captures(1 := Some (js ''thinking''), 2 := Some X))"
    by (simp add: regex_exec.simps [of ?s 0])
  have "match_at ?s j = None" if "length ?s \<le> j" for j
  proof (cases "match_at ?s j")
    case None
    then show ?thesis .
  next
    case (Some r)
    then obtain e c where "match_at ?s j = Some (e, c)" by (cases r) auto
    from match_at_bounds [OF this] that show ?thesis by simp
  qed
  then have "regex_exec ?s (length ?s) = None"
    by (intro regex_exec_NoneI) simp
  then have tail: "parse_loop ?s (length ?s) = ([], None)"
    by (simp add: parse_loop_None)
  have "classify (substring ?s 0 (length ?s))
      (no_captures(1 := Some (js ''thinking''), 2 := Some X)) = Inr [Reasoning (trim X)]"
    by (rule classify_tag) (simp add: tag_names_def)
  from parse_loop_Some [OF ex this] tail show ?thesis
    by (simp add: parseClarifaiOutput_def text_before_def)
qed

subsection \<open>Induction along the cursor\<close>

lemma cursor_induct [case_names step]:
  assumes "\<And>i. (\<And>st e c. regex_exec s i = Some (st, e, c) \<Longrightarrow> P e) \<Longrightarrow> P i"
  shows "P i"
proof (induction "length s - i" arbitrary: i rule: less_induct)
  case less
  show ?case
  proof (rule assms)
    fix st e c
    assume "regex_exec s i = Some (st, e, c)"
    from regex_exec_bounds [OF this] have "length s - e < length s - i" by arith
    then show "P e" by (rule less)
  qed
qed

lemma parse_loop_no_error: "snd (parse_loop s i) = None"
proof (induction i rule: cursor_induct [where s = s])
  case (step i)
  show ?case
  proof (cases "regex_exec s i")
    case None
    then show ?thesis by (simp add: parse_loop_None)
  next
    case (Some r)
    then obtain st e c where ex: "regex_exec s i = Some (st, e, c)" by (cases r) auto
    from parse_loop_step [OF ex] have "snd (parse_loop s i) = snd (parse_loop s e)" by auto
    with step [OF ex] show ?thesis by simp
  qed
qed

text \<open>The matches the loop accepts from the cursor \<open>i\<close> on, in order: the recognized blocks.\<close>

function matches_from :: "jsstring \<Rightarrow> nat \<Rightarrow> (nat \<times> nat \<times> captures) list" where
  "matches_from s i =
     (case regex_exec s i of
        None \<Rightarrow> []
      | Some (st, e, c) \<Rightarrow> (st, e, c) # matches_from s e)"
  by pat_completeness auto
termination
proof (relation "measure (\<lambda>(s, i). length s - i)", goal_cases)
  case 1
  show ?case by simp
next
  case (2 s i x2 st y e c)
  then have "regex_exec s i = Some (st, e, c)" by simp
  from regex_exec_bounds [OF this] have "i < e" "e \<le> length s" by simp_all
  then show ?case by simp
qed

declare matches_from.simps [simp del]

lemma matches_from_None: "regex_exec s i = None \<Longrightarrow> matches_from s i = []"
  by (simp add: matches_from.simps [of s i])

lemma matches_from_Some:
  "regex_exec s i = Some (st, e, c) \<Longrightarrow> matches_from s i = (st, e, c) # matches_from s e"
  by (simp add: matches_from.simps [of s i])

lemma length_text_before: "length (text_before s i st) \<le> 1"
  by (simp add: text_before_def)

lemma parse_loop_length: "length (fst (parse_loop s i)) \<le> 2 * length (matches_from s i) + 1"
proof (induction i rule: cursor_induct [where s = s])
  case (step i)
  show ?case
  proof (cases "regex_exec s i")
    case None
    then show ?thesis by (simp add: parse_loop_None)
  next
    case (Some r)
    then obtain st e c where ex: "regex_exec s i = Some (st, e, c)" by (cases r) auto
    from parse_loop_step [OF ex]
    have "length (fst (parse_loop s i)) = length (text_before s i st) + 1 + length (fst (parse_loop s e))"
      by auto
    with step [OF ex] length_text_before [of s i st] matches_from_Some [OF ex]
    show ?thesis by simp
  qed
qed

lemma matches_from_length: "length (matches_from s i) \<le> length s - i"
proof (induction i rule: cursor_induct [where s = s])
  case (step i)
  show ?case
  proof (cases "regex_exec s i")
    case None
    then show ?thesis by (simp add: matches_from_None)
  next
    case (Some r)
    then obtain st e c where ex: "regex_exec s i = Some (st, e, c)" by (cases r) auto
    from regex_exec_bounds [OF ex] have b: "i < e" "e \<le> length s" by simp_all
    with step [OF ex] have "length (matches_from s e) \<le> length s - e" by simp
    with b matches_from_Some [OF ex] show ?thesis by simp
  qed
qed

section \<open>Termination and the number of chunks\<close>

text \<open>
  Claim C10. The scan terminates: \<open>parse_loop\<close> is a total function, every accepted match
  is non-empty and moves the cursor \<open>lastIndex\<close> strictly forward, inside the string, so
  the loop runs at most \<open>length s\<close> times; and the number of emitted chunks is at most
  twice the number of recognized blocks plus one.
\<close>

theorem scan_terminates_chunks_bounded:
  "(regex_exec s lastIndex = Some (startIndex, e, c) \<longrightarrow>
      lastIndex \<le> startIndex \<and> startIndex < e \<and> e \<le> length s) \<and>
   length (matches_from s 0) \<le> length s \<and>
   length (fst (parseClarifaiOutput s)) \<le> 2 * length (matches_from s 0) + 1"
  using regex_exec_bounds [of s lastIndex startIndex e c] matches_from_length [of s 0]
    parse_loop_length [of s 0]
  by (simp add: parseClarifaiOutput_def)

lemma exec_example:
  "\<exists>c. regex_exec (js ''a<task> b </task>c'') 0 = Some (1, 17, c) \<and> c 1 = Some (js ''task'')"
  by (simp add: run_defs)

lemma exec_example_end: "regex_exec (js ''a<task> b </task>c'') 17 = None"
  by (simp add: run_defs)

theorem scan_terminates_chunks_bounded_witness:
  "regex_exec (js ''a<task> b </task>c'') 0 \<noteq> None \<and>
   length (matches_from (js ''a<task> b </task>c'') 0) = 1 \<and>
   length (fst (parseClarifaiOutput (js ''a<task> b </task>c''))) = 3 \<and>
   length (js ''a<task> b </task>c'') = 18"
proof -
  let ?s = "js ''a<task> b </task>c''"
  from exec_example obtain c where ex: "regex_exec ?s 0 = Some (1, 17, c)" by blast
  have m: "length (matches_from ?s 0) = 1"
    by (simp add: matches_from_Some [OF ex] matches_from_None [OF exec_example_end])
  have p: "length (fst (parseClarifaiOutput ?s)) = 3"
    by (simp add: run_defs)
  have l: "length ?s = 18" by (simp add: js_def)
  from scan_terminates_chunks_bounded [of ?s 0 1 17 c] ex m p l show ?thesis by simp
qed

section \<open>The classification of recognized blocks\<close>

text \<open>
  Claim C4. At every iteration of the loop, the recognized block is emitted as exactly
  one chunk after the text that precedes it: a tag block \<open><T>inner</T>\<close>, whose tag is
  \<open>task\<close>, \<open>environment_details\<close> or \<open>thinking\<close>, as one reasoning chunk with the
  inner content trimmed; a \<open>tool_code\<close> or \<open>tool_result\<close> fenced block (group 3 or
  group 4 is defined) as one text chunk with the whole matched block. In particular a
  single \<open><thinking>X</thinking>\<close> block, \<open>X\<close> without \<open></thinking>\<close>, yields exactly
  one reasoning chunk with the value \<open>trim X\<close>.
\<close>

theorem block_classification:
  "(regex_exec s lastIndex = Some (startIndex, e, c) \<longrightarrow>
      (case c 1 of
         Some T \<Rightarrow>
           T \<in> set tag_names \<and>
           (\<exists>inner. substring s startIndex e =
                      js ''<'' @ T @ js ''>'' @ inner @ js ''</'' @ T @ js ''>'' \<and>
              parse_loop s lastIndex =
                (text_before s lastIndex startIndex @ [Reasoning (trim inner)] @
                 fst (parse_loop s e), None))
       | None \<Rightarrow>
           (c 3 \<noteq> None \<or> c 4 \<noteq> None) \<and>
           parse_loop s lastIndex =
             (text_before s lastIndex startIndex @ [Text (substring s startIndex e)] @
              fst (parse_loop s e), None))) \<and>
   (split_first (js ''</thinking>'') X = None \<longrightarrow>
      parseClarifaiOutput (js ''<thinking>'' @ X @ js ''</thinking>'') =
        ([Reasoning (trim X)], None))"
proof (intro conjI impI)
  assume ex: "regex_exec s lastIndex = Some (startIndex, e, c)"
  from parse_loop_step [OF ex] parse_loop_no_error [of s e]
  show "case c 1 of
         Some T \<Rightarrow>
           T \<in> set tag_names \<and>
           (\<exists>inner. substring s startIndex e =
                      js ''<'' @ T @ js ''>'' @ inner @ js ''</'' @ T @ js ''>'' \<and>
              parse_loop s lastIndex =
                (text_before s lastIndex startIndex @ [Reasoning (trim inner)] @
                 fst (parse_loop s e), None))
       | None \<Rightarrow>
           (c 3 \<noteq> None \<or> c 4 \<noteq> None) \<and>
           parse_loop s lastIndex =
             (text_before s lastIndex startIndex @ [Text (substring s startIndex e)] @
              fst (parse_loop s e), None)"
    by (elim disjE exE conjE) simp_all
next
  assume "split_first (js ''</thinking>'') X = None"
  then show "parseClarifaiOutput (js ''<thinking>'' @ X @ js ''</thinking>'') =
      ([Reasoning (trim X)], None)"
    by (rule single_thinking_block)
qed

lemma tool_code_example:
  "parseClarifaiOutput (js ''run tool_code ```json\<newline>{}\<newline>``` ok'') =
     ([Text (js ''run ''), Text (js ''tool_code ```json\<newline>{}\<newline>```''), Text (js '' ok'')], None)"
  by (simp add: run_defs)

lemma exec_fence_example:
  "\<exists>c. regex_exec (js ''run tool_code ```json\<newline>{}\<newline>``` ok'') 0 = Some (4, 28, c) \<and>
       c 1 = None"
  by (simp add: run_defs)

theorem block_classification_witness:
  "regex_exec (js ''a<task> b </task>c'') 0 \<noteq> None \<and>
   regex_exec (js ''run tool_code ```json\<newline>{}\<newline>``` ok'') 0 \<noteq> None \<and>
   split_first (js ''</thinking>'') (js '' ponder '') = None \<and>
   parse_loop (js ''a<task> b </task>c'') 0 =
     (Text (js ''a'') # Reasoning (js ''b'') # fst (parse_loop (js ''a<task> b </task>c'') 17), None) \<and>
   parse_loop (js ''run tool_code ```json\<newline>{}\<newline>``` ok'') 0 =
     (Text (js ''run '') # Text (js ''tool_code ```json\<newline>{}\<newline>```'') #
      fst (parse_loop (js ''run tool_code ```json\<newline>{}\<newline>``` ok'') 28), None) \<and>
   parseClarifaiOutput (js ''<thinking> ponder </thinking>'') = ([Reasoning (js ''ponder'')], None)"
proof -
  let ?s = "js ''a<task> b </task>c''"
  let ?f = "js ''run tool_code ```json\<newline>{}\<newline>``` ok''"
  from exec_example obtain c where ex: "regex_exec ?s 0 = Some (1, 17, c)"
    and c: "c 1 = Some (js ''task'')" by blast
  from exec_fence_example obtain d where fx: "regex_exec ?f 0 = Some (4, 28, d)"
    and d: "d 1 = None" by blast
  have X: "split_first (js ''</thinking>'') (js '' ponder '') = None"
    by (simp add: js_def)
  have sub: "substring ?s 1 17 = js ''<'' @ js ''task'' @ js ''>'' @ js '' b '' @ js ''</'' @ js ''task'' @ js ''>''"
    by (simp add: js_def substring_def)
  have t: "trim (js '' b '') = js ''b''" "trim (js '' ponder '') = js ''ponder''"
    by (simp_all add: js_def trim_def is_space_def)
  have tb: "text_before ?s 0 1 = [Text (js ''a'')]"
    by (simp add: text_before_def substring_def js_def)
  have fb: "text_before ?f 0 4 = [Text (js ''run '')]"
    "substring ?f 4 28 = js ''tool_code ```json\<newline>{}\<newline>```''"
    by (simp_all add: text_before_def substring_def js_def)
  from block_classification [of ?s 0 1 17 c "js '' ponder ''"] ex c X
  obtain inner where i: "substring ?s 1 17 =
        js ''<'' @ js ''task'' @ js ''>'' @ inner @ js ''</'' @ js ''task'' @ js ''>''"
    and p: "parse_loop ?s 0 = (text_before ?s 0 1 @ [Reasoning (trim inner)] @ fst (parse_loop ?s 17), None)"
    and q: "parseClarifaiOutput (js ''<thinking>'' @ js '' ponder '' @ js ''</thinking>'') =
        ([Reasoning (trim (js '' ponder ''))], None)"
    by auto
  from block_classification [of ?f 0 4 28 d "js '' ponder ''"] fx d
  have f: "parse_loop ?f 0 =
      (text_before ?f 0 4 @ [Text (substring ?f 4 28)] @ fst (parse_loop ?f 28), None)"
    by simp
  from i sub have "inner = js '' b ''" by simp
  with p q t tb ex X have 1: "regex_exec ?s 0 \<noteq> None \<and>
      split_first (js ''</thinking>'') (js '' ponder '') = None \<and>
      parse_loop ?s 0 = (Text (js ''a'') # Reasoning (js ''b'') # fst (parse_loop ?s 17), None) \<and>
      parseClarifaiOutput (js ''<thinking> ponder </thinking>'') = ([Reasoning (js ''ponder'')], None)"
    by (simp add: js_def)
  from f fb fx have 2: "regex_exec ?f 0 \<noteq> None \<and>
      parse_loop ?f 0 = (Text (js ''run '') # Text (js ''tool_code ```json\<newline>{}\<newline>```'') #
        fst (parse_loop ?f 28), None)"
    by simp
  from 1 2 show ?thesis by blast
qed

section \<open>Reconstruction of the raw response\<close>

text \<open>The concatenation of the values of the chunks, in emission order.\<close>

definition concat_values :: "chunk list \<Rightarrow> jsstring" where
  "concat_values cs = concat (map chunk_text cs)"

subsection \<open>Documents of plain text and tag blocks\<close>

text \<open>
  A text of plain text and well-formed tag blocks, as a tree: a piece is plain text or a
  block \<open><T>...</T>\<close> around further pieces. \<open>render\<close> writes it out.
  \<open>only_delimiters_removed\<close> is the text with every tag delimiter removed and nothing
  else; \<open>delimiters_removed_trimmed\<close> removes every tag delimiter and trims the inner
  content of every block.
\<close>

datatype piece = Plain jsstring | Block jsstring "piece list"

fun render :: "piece \<Rightarrow> jsstring" where
  "render (Plain t) = t"
| "render (Block T ps) = js ''<'' @ T @ js ''>'' @ concat (map render ps) @ js ''</'' @ T @ js ''>''"

fun only_delimiters_removed :: "piece \<Rightarrow> jsstring" where
  "only_delimiters_removed (Plain t) = t"
| "only_delimiters_removed (Block T ps) = concat (map only_delimiters_removed ps)"

fun delimiters_removed_trimmed :: "piece \<Rightarrow> jsstring" where
  "delimiters_removed_trimmed (Plain t) = t"
| "delimiters_removed_trimmed (Block T ps) = trim (concat (map delimiters_removed_trimmed ps))"

subsection \<open>The blocks the scan recognizes\<close>

text \<open>
  The fenced block at the head of \<open>r\<close>, when one of the two fenced alternatives of the
  regular expression matches there: the block and the text after it.
\<close>

definition fence_alts :: matcher where
  "fence_alts = m_alt (fence_alt ''tool_code'' 3) (fence_alt ''tool_result'' 4)"

definition fence_block :: "jsstring \<Rightarrow> (jsstring \<times> jsstring) option" where
  "fence_block r =
     (case fence_alts accept r no_captures of
        None \<Rightarrow> None
      | Some (rest, c) \<Rightarrow> Some (take (length r - length rest) r, rest))"

lemma consumes_fence_alts: "consumes 1 fence_alts"
  unfolding fence_alts_def
  by (intro consumes_alt consumes_fence_alt) simp_all

lemma fence_alts_Some:
  assumes "fence_alts accept r c0 = Some (rest, c)"
  shows "\<exists>p. r = p @ rest \<and> p \<noteq> []"
proof -
  from consumesD [OF consumes_fence_alts assms] obtain p where "r = p @ rest" "1 \<le> length p"
    by (auto simp: accept_def)
  then have "r = p @ rest \<and> p \<noteq> []" by auto
  then show ?thesis by blast
qed

lemma fence_block_Some:
  assumes "fence_block r = Some (block, rest)"
  shows "r = block @ rest \<and> block \<noteq> []"
proof -
  from assms obtain c where m: "fence_alts accept r no_captures = Some (rest, c)"
    and b: "block = take (length r - length rest) r"
    by (auto simp: fence_block_def split: option.splits)
  from fence_alts_Some [OF m] obtain p where "r = p @ rest" "p \<noteq> []" by blast
  with b show ?thesis by simp
qed

lemma tag_block_shorter: "tag_block r = Some (T, inner, rest) \<Longrightarrow> length rest < length r"
proof -
  assume "tag_block r = Some (T, inner, rest)"
  from tag_block_Some [OF this]
  have "length r = length (js ''<'' @ T @ js ''>'' @ inner @ js ''</'' @ T @ js ''>'' @ rest)"
    by simp
  then show ?thesis by (simp add: js_def)
qed

lemma fence_block_shorter: "fence_block r = Some (block, rest) \<Longrightarrow> length rest < length r"
proof -
  assume "fence_block r = Some (block, rest)"
  from fence_block_Some [OF this] have r: "r = block @ rest" and b: "block \<noteq> []"
    by simp_all
  from r have "length r = length block + length rest" by (simp only: length_append)
  with b show ?thesis by (cases block) simp_all
qed

text \<open>
  The raw response as the scan reads it, from left to right: a tag block
  \<open><T>inner</T>\<close>, closed by the first \<open></T>\<close> after its opening tag, is replaced by
  \<open>f inner\<close>; a fenced block is kept whole; every other character is kept. The text
  inside a block is not read again.
\<close>

function replace_blocks :: "(jsstring \<Rightarrow> jsstring) \<Rightarrow> jsstring \<Rightarrow> jsstring" where
  "replace_blocks f [] = []"
| "replace_blocks f (x # r) =
     (case tag_block (x # r) of
        Some (T, inner, rest) \<Rightarrow> f inner @ replace_blocks f rest
      | None \<Rightarrow>
          (case fence_block (x # r) of
             Some (block, rest) \<Rightarrow> block @ replace_blocks f rest
           | None \<Rightarrow> x # replace_blocks f r))"
  by pat_completeness auto
termination
  by (relation "measure (\<lambda>(f, r). length r)")
     (auto dest: tag_block_shorter fence_block_shorter)

declare replace_blocks.simps [simp del]


lemma match_at_blocks:
  "match_at s i =
     (case tag_block (drop i s) of
        Some (T, a, b) \<Rightarrow> Some (length s - length b, no_captures(1 := Some T, 2 := Some a))
      | None \<Rightarrow>
          (case fence_alts accept (drop i s) no_captures of
             None \<Rightarrow> None
           | Some (rest, c) \<Rightarrow> Some (length s - length rest, c)))"
  by (simp add: match_at_def blockRegex_def fence_alts_def m_alt_def [of tag_alt] tag_alt_eq
      del: One_nat_def split: option.splits)

lemma match_at_None_blocks:
  "match_at s i = None \<Longrightarrow> tag_block (drop i s) = None \<and> fence_block (drop i s) = None"
  by (simp add: match_at_blocks fence_block_def split: option.splits prod.splits)

lemma fence_alts_classify:
  assumes "fence_alts accept r no_captures = Some (rest, c)"
  shows "classify full c = Inr [Text full]"
proof -
  from assms have "fence_alt ''tool_code'' 3 accept r no_captures = Some (rest, c) \<or>
      fence_alt ''tool_result'' 4 accept r no_captures = Some (rest, c)"
    by (auto simp: fence_alts_def m_alt_def split: option.splits)
  then have "(\<exists>x. c = no_captures(3 := Some x)) \<or> (\<exists>x. c = no_captures(4 := Some x))"
    by (auto dest: fence_alt_captures)
  then show ?thesis
    by (auto simp: classify_tool_code classify_tool_result)
qed

lemma suffix_is_drop:
  assumes "drop i s = p @ rest" and "i \<le> length s"
  shows "rest = drop (length s - length rest) s \<and> length s - length rest = i + length p"
proof -
  from assms(1) have "length (drop i s) = length p + length rest"
    by (simp only: length_append)
  with assms(2) have l: "length s - length rest = i + length p" by simp
  then have "drop (length s - length rest) s = drop (length p) (drop i s)"
    by (simp add: add.commute)
  also have "\<dots> = rest" by (simp only: assms(1)) simp
  finally show ?thesis using l by simp
qed

text \<open>
  One match of the loop, seen on the text: the chunk yielded has the value that
  \<open>replace_blocks\<close> puts for the block at the index of the match, and the scan goes on
  after the block.
\<close>

lemma match_at_replace:
  assumes m: "match_at s st = Some (e, c)" and st: "st \<le> length s"
  shows "\<exists>ch. classify (substring s st e) c = Inr [ch] \<and>
           replace_blocks trim (drop st s) = chunk_text ch @ replace_blocks trim (drop e s)"
proof -
  from match_at_bounds [OF m] have b: "st < e" "e \<le> length s" by simp_all
  then have "drop st s \<noteq> []" by simp
  then obtain x r where xr: "drop st s = x # r" by (cases "drop st s") auto
  show ?thesis
  proof (cases "tag_block (drop st s)")
    case (Some tb)
    then obtain T a rest where tb: "tag_block (drop st s) = Some (T, a, rest)"
      by (cases tb) auto
    with m have e: "e = length s - length rest" and c: "c = no_captures(1 := Some T, 2 := Some a)"
      by (simp_all add: match_at_blocks)
    from tag_block_Some [OF tb] have T: "T \<in> set tag_names"
      and d: "drop st s = (js ''<'' @ T @ js ''>'' @ a @ js ''</'' @ T @ js ''>'') @ rest"
      by simp_all
    from suffix_is_drop [OF d st] have "rest = drop (length s - length rest) s" by blast
    then have rest: "rest = drop e s" by (simp only: e)
    from classify_tag [OF T, of "substring s st e" a] c
    have "classify (substring s st e) c = Inr [Reasoning (trim a)]" by simp
    moreover from tb xr rest
    have "replace_blocks trim (drop st s) = trim a @ replace_blocks trim (drop e s)"
      by (simp add: replace_blocks.simps)
    ultimately show ?thesis by simp
  next
    case None
    with m obtain rest where f: "fence_alts accept (drop st s) no_captures = Some (rest, c)"
      and e: "e = length s - length rest"
      by (auto simp: match_at_blocks split: option.splits)
    from fence_alts_Some [OF f] obtain p where d: "drop st s = p @ rest" by blast
    from suffix_is_drop [OF d st] have "rest = drop (length s - length rest) s"
      and "length s - length rest = st + length p" by blast+
    then have rest: "rest = drop e s" and ep: "e = st + length p" by (simp_all only: e)
    from b st ep d have "substring s st e = p"
      by (simp add: substring_le)
    moreover from f d have "fence_block (drop st s) = Some (p, rest)"
      by (simp add: fence_block_def)
    ultimately have "replace_blocks trim (drop st s) =
        substring s st e @ replace_blocks trim (drop e s)"
      using None xr rest by (simp add: replace_blocks.simps)
    moreover from fence_alts_classify [OF f]
    have "classify (substring s st e) c = Inr [Text (substring s st e)]" .
    ultimately show ?thesis by simp
  qed
qed

lemma replace_blocks_skip:
  assumes "\<And>j. i \<le> j \<Longrightarrow> j < st \<Longrightarrow> match_at s j = None"
    and "i \<le> st" and "st \<le> length s"
  shows "replace_blocks f (drop i s) = substring s i st @ replace_blocks f (drop st s)"
  using assms
proof (induction "st - i" arbitrary: i)
  case 0
  then show ?case by (simp add: substring_le)
next
  case (Suc n)
  then have lt: "i < st" "i < length s" by simp_all
  then have d: "drop i s = s ! i # drop (Suc i) s" by (simp add: Cons_nth_drop_Suc)
  from Suc.prems(1) [of i] lt have "match_at s i = None" by simp
  from match_at_None_blocks [OF this] d
  have "replace_blocks f (drop i s) = s ! i # replace_blocks f (drop (Suc i) s)"
    by (simp add: replace_blocks.simps)
  also have "replace_blocks f (drop (Suc i) s) =
      substring s (Suc i) st @ replace_blocks f (drop st s)"
    using Suc.hyps(2) Suc.prems lt by (intro Suc.hyps(1)) simp_all
  finally have step: "replace_blocks f (drop i s) =
      (s ! i # substring s (Suc i) st) @ replace_blocks f (drop st s)" by simp
  have "s ! i # substring s (Suc i) st = substring s i st"
  proof -
    from lt Suc.prems(3) have "substring s i st = take (st - i) (s ! i # drop (Suc i) s)"
      by (simp add: substring_le d)
    also from lt have "\<dots> = s ! i # take (st - Suc i) (drop (Suc i) s)"
    proof -
      from lt obtain n' where n': "st - i = Suc n'" by (cases "st - i") simp_all
      then have "st - Suc i = n'" by simp
      with n' show ?thesis by simp
    qed
    finally show ?thesis using lt Suc.prems(3) by (simp add: substring_le)
  qed
  with step show ?case by simp
qed

lemma concat_values_text_before:
  "i \<le> st \<Longrightarrow> st \<le> length s \<Longrightarrow> concat_values (text_before s i st) = substring s i st"
  by (cases "i < st") (simp_all add: concat_values_def text_before_def substring_le)

lemma parse_loop_values_all:
  "i \<le> length s \<Longrightarrow> concat_values (fst (parse_loop s i)) = replace_blocks trim (drop i s)"
proof (induction i rule: cursor_induct [where s = s])
  case (step i)
  show ?case
  proof (cases "regex_exec s i")
    case None
    have "match_at s j = None" if "i \<le> j" "j < length s" for j
      using regex_exec_None [OF None, of j] that by simp
    from replace_blocks_skip [of i "length s" s trim, OF this] step.prems
    have "replace_blocks trim (drop i s) = substring s i (length s)"
      by (simp add: replace_blocks.simps)
    with None step.prems show ?thesis
      by (auto simp: parse_loop_None concat_values_def substring_from_def substring_le)
  next
    case (Some r)
    then obtain st e c where ex: "regex_exec s i = Some (st, e, c)" by (cases r) auto
    from regex_exec_bounds [OF ex] have b: "i \<le> st" "st < e" "e \<le> length s" by simp_all
    from regex_exec_Some [OF ex] have m: "match_at s st = Some (e, c)"
      and before: "\<And>j. i \<le> j \<Longrightarrow> j < st \<Longrightarrow> match_at s j = None" by simp_all
    from replace_blocks_skip [of i st s trim, OF before] b
    have skip: "replace_blocks trim (drop i s) =
        substring s i st @ replace_blocks trim (drop st s)" by simp
    from match_at_replace [OF m] b obtain ch
      where cl: "classify (substring s st e) c = Inr [ch]"
        and blk: "replace_blocks trim (drop st s) = chunk_text ch @ replace_blocks trim (drop e s)"
      by auto
    from parse_loop_Some [OF ex cl]
    have "concat_values (fst (parse_loop s i)) =
        concat_values (text_before s i st) @ chunk_text ch @ concat_values (fst (parse_loop s e))"
      by (simp add: concat_values_def)
    also from b have "concat_values (text_before s i st) = substring s i st"
      by (simp add: concat_values_text_before)
    also from step.IH [OF ex] b have "concat_values (fst (parse_loop s e)) =
        replace_blocks trim (drop e s)" by simp
    finally show ?thesis using skip blk by simp
  qed
qed


subsection \<open>The chunks partition the raw response\<close>

text \<open>
  Reversing the transform of one chunk: a text chunk comes from its value; a reasoning
  chunk comes from a block \<open><T>inner</T>\<close> of one of the three tags, and its value is
  \<open>inner\<close> trimmed.
\<close>

fun comes_from :: "chunk \<Rightarrow> jsstring \<Rightarrow> bool" where
  "comes_from (Text v) x \<longleftrightarrow> x = v"
| "comes_from (Reasoning v) x \<longleftrightarrow>
     (\<exists>T\<in>set tag_names. \<exists>inner.
        x = js ''<'' @ T @ js ''>'' @ inner @ js ''</'' @ T @ js ''>'' \<and> v = trim inner)"

lemma drop_split:
  "i \<le> j \<Longrightarrow> j \<le> length s \<Longrightarrow> drop i s = substring s i j @ drop j s"
proof -
  assume a: "i \<le> j" "j \<le> length s"
  then have "drop j s = drop (j - i) (drop i s)" by simp
  with a show ?thesis
    by (simp only: substring_le append_take_drop_id)
qed

lemma text_before_concat:
  "i \<le> st \<Longrightarrow> st \<le> length s \<Longrightarrow>
     \<exists>xs. list_all2 comes_from (text_before s i st) xs \<and> concat xs = substring s i st"
proof (cases "i < st")
  case True
  then have "list_all2 comes_from (text_before s i st) [substring s i st] \<and>
      concat [substring s i st] = substring s i st"
    by (simp add: text_before_def)
  then show ?thesis by blast
next
  case False
  assume "i \<le> st" "st \<le> length s"
  with False have "list_all2 comes_from (text_before s i st) [] \<and> concat [] = substring s i st"
    by (simp add: text_before_def substring_le)
  then show ?thesis by blast
qed

lemma parse_loop_reconstructs:
  "i \<le> length s \<Longrightarrow> \<exists>xs. list_all2 comes_from (fst (parse_loop s i)) xs \<and> concat xs = drop i s"
proof (induction i rule: cursor_induct [where s = s])
  case (step i)
  show ?case
  proof (cases "regex_exec s i")
    case None
    show ?thesis
    proof (cases "i < length s")
      case True
      with None have "fst (parse_loop s i) = [Text (drop i s)]"
        by (simp add: parse_loop_None substring_from_drop)
      then have "list_all2 comes_from (fst (parse_loop s i)) [drop i s] \<and> concat [drop i s] = drop i s"
        by simp
      then show ?thesis by blast
    next
      case False
      with None step.prems have "fst (parse_loop s i) = []" "drop i s = []"
        by (simp_all add: parse_loop_None)
      then have "list_all2 comes_from (fst (parse_loop s i)) [] \<and> concat [] = drop i s"
        by simp
      then show ?thesis by blast
    qed
  next
    case (Some r)
    then obtain st e c where ex: "regex_exec s i = Some (st, e, c)" by (cases r) auto
    from regex_exec_bounds [OF ex] have b: "i \<le> st" "st < e" "e \<le> length s" by simp_all
    from step.IH [OF ex] b obtain zs
      where zs: "list_all2 comes_from (fst (parse_loop s e)) zs" "concat zs = drop e s" by auto
    from text_before_concat [of i st s] b obtain xs
      where xs: "list_all2 comes_from (text_before s i st) xs" "concat xs = substring s i st"
      by auto
    have d: "drop i s = substring s i st @ substring s st e @ drop e s"
      using drop_split [of i st s] drop_split [of st e s] b by simp
    have "\<exists>ch. fst (parse_loop s i) = text_before s i st @ [ch] @ fst (parse_loop s e) \<and>
        comes_from ch (substring s st e)"
    proof -
      from parse_loop_step [OF ex] consider
        (tag) T a where "T \<in> set tag_names"
          "substring s st e = js ''<'' @ T @ js ''>'' @ a @ js ''</'' @ T @ js ''>''"
          "fst (parse_loop s i) = text_before s i st @ [Reasoning (trim a)] @ fst (parse_loop s e)"
        | (fence)
          "fst (parse_loop s i) = text_before s i st @ [Text (substring s st e)] @ fst (parse_loop s e)"
        by auto
      then show ?thesis
      proof cases
        case tag
        from tag(1,2) have "comes_from (Reasoning (trim a)) (substring s st e)"
          by (simp only: comes_from.simps) blast
        with tag(3) show ?thesis by blast
      next
        case fence
        then show ?thesis by (intro exI [of _ "Text (substring s st e)"]) simp
      qed
    qed
    then obtain ch where ch: "fst (parse_loop s i) = text_before s i st @ [ch] @ fst (parse_loop s e)"
      "comes_from ch (substring s st e)" by blast
    from xs zs ch have "list_all2 comes_from (fst (parse_loop s i)) (xs @ [substring s st e] @ zs)"
      by (simp add: list_all2_appendI)
    moreover from xs zs d have "concat (xs @ [substring s st e] @ zs) = drop i s" by simp
    ultimately show ?thesis by blast
  qed
qed



text \<open>
  Claim C1, as stated, fails: concatenating the values does not give the raw response
  with only the delimiters removed, because the inner content of a tag block is trimmed
  (and a fenced block keeps its marker and its fences, see \<open>tool_code_example\<close>).
\<close>

theorem values_not_delimiters_removed:
  "render (Block (js ''thinking'') [Plain (js '' a '')]) = js ''<thinking> a </thinking>'' \<and>
   concat_values (fst (parseClarifaiOutput (js ''<thinking> a </thinking>''))) = js ''a'' \<and>
   only_delimiters_removed (Block (js ''thinking'') [Plain (js '' a '')]) = js '' a '' \<and>
   concat_values (fst (parseClarifaiOutput (js ''<thinking> a </thinking>''))) \<noteq>
     only_delimiters_removed (Block (js ''thinking'') [Plain (js '' a '')])"
proof -
  have 1: "concat_values (fst (parseClarifaiOutput (js ''<thinking> a </thinking>''))) = js ''a''"
    by (simp add: run_defs concat_values_def)
  have 2: "render (Block (js ''thinking'') [Plain (js '' a '')]) = js ''<thinking> a </thinking>''"
    by (simp add: js_def)
  from 1 2 show ?thesis by (simp add: js_def)
qed

text \<open>
  Claim C1, amended. Concatenating the values of the chunks, in emission order, gives
  the raw response in which every tag block the scan recognizes is replaced by its inner
  content trimmed, and in which everything else is kept, a recognized fenced block with
  its marker and its fences included. The chunks partition the raw response: it is the
  concatenation of what the chunks come from, a text chunk from its value and a reasoning
  chunk from a block \<open><T>inner</T>\<close> whose trimmed inner content is the value. So the
  values lose the delimiters of the recognized tag blocks and the leading and trailing
  white space of their inner content, and nothing else; nothing is thrown.
\<close>

theorem values_reconstruct_raw_response:
  "concat_values (fst (parseClarifaiOutput s)) = replace_blocks trim s \<and>
   (\<exists>xs. list_all2 comes_from (fst (parseClarifaiOutput s)) xs \<and> concat xs = s) \<and>
   snd (parseClarifaiOutput s) = None"
  using parse_loop_values_all [of 0 s] parse_loop_reconstructs [of 0 s]
    parse_loop_no_error [of s 0]
  by (simp add: parseClarifaiOutput_def)

theorem values_reconstruct_raw_response_witness:
  "fst (parseClarifaiOutput (js ''x<task> a </task>tool_code```\<newline><task>b</task>```'')) =
     [Text (js ''x''), Reasoning (js ''a''), Text (js ''tool_code```\<newline><task>b</task>```'')] \<and>
   replace_blocks trim (js ''x<task> a </task>tool_code```\<newline><task>b</task>```'') =
     js ''xatool_code```\<newline><task>b</task>```'' \<and>
   (\<exists>xs. list_all2 comes_from
      [Text (js ''x''), Reasoning (js ''a''), Text (js ''tool_code```\<newline><task>b</task>```'')] xs \<and>
      concat xs = js ''x<task> a </task>tool_code```\<newline><task>b</task>```'')"
proof -
  let ?s = "js ''x<task> a </task>tool_code```\<newline><task>b</task>```''"
  have p: "fst (parseClarifaiOutput ?s) =
     [Text (js ''x''), Reasoning (js ''a''), Text (js ''tool_code```\<newline><task>b</task>```'')]"
    by (simp add: run_defs)
  have c: "concat_values [Text (js ''x''), Reasoning (js ''a''),
      Text (js ''tool_code```\<newline><task>b</task>```'')] = js ''xatool_code```\<newline><task>b</task>```''"
    by (simp add: concat_values_def js_def)
  from values_reconstruct_raw_response [of ?s] p c show ?thesis
    by simp
qed


section \<open>Inputs without fenced blocks\<close>

text \<open>
  The text without fenced blocks as the scan reads it, from left to right: a tag block
  \<open><T>inner</T>\<close>, closed by the first \<open></T>\<close> after its opening tag, is replaced by
  \<open>f inner\<close>, which removes its two delimiters; every other character is kept. The text
  inside a block is not read again, so a block inside a block keeps its delimiters.
\<close>

function replace_tag_blocks :: "(jsstring \<Rightarrow> jsstring) \<Rightarrow> jsstring \<Rightarrow> jsstring" where
  "replace_tag_blocks f [] = []"
| "replace_tag_blocks f (x # r) =
     (case tag_block (x # r) of
        Some (T, inner, rest) \<Rightarrow> f inner @ replace_tag_blocks f rest
      | None \<Rightarrow> x # replace_tag_blocks f r)"
  by pat_completeness auto
termination
proof (relation "measure (\<lambda>(f, r). length r)", goal_cases)
  case 1
  show ?case by simp
next
  case (2 f x r)
  show ?case by simp
next
  case (3 f x r x2 T y inner rest)
  then have "tag_block (x # r) = Some (T, inner, rest)" by simp
  from tag_block_Some [OF this]
  have "length (x # r) = length (js ''<'' @ T @ js ''>'' @ inner @ js ''</'' @ T @ js ''>'' @ rest)"
    by simp
  then show ?case by (simp add: js_def)
qed

text \<open>
  \<open>no_fence s\<close>: neither fenced alternative of the regular expression matches at any
  index of \<open>s\<close>.
\<close>

definition no_fence :: "jsstring \<Rightarrow> bool" where
  "no_fence s \<longleftrightarrow>
     list_all
       (\<lambda>i. m_alt (fence_alt ''tool_code'' 3) (fence_alt ''tool_result'' 4) accept (drop i s)
              no_captures = None)
       [0..<Suc (length s)]"

lemma no_fence_iff:
  "no_fence s \<longleftrightarrow>
     (\<forall>i\<le>length s. m_alt (fence_alt ''tool_code'' 3) (fence_alt ''tool_result'' 4) accept
         (drop i s) no_captures = None)"
  by (auto simp: no_fence_def list_all_iff less_Suc_eq_le)

lemma no_fence_match_at:
  assumes "no_fence s" and "i \<le> length s"
  shows "match_at s i =
     (case tag_block (drop i s) of
        None \<Rightarrow> None
      | Some (T, a, b) \<Rightarrow> Some (length s - length b, no_captures(1 := Some T, 2 := Some a)))"
proof -
  from assms have "m_alt (fence_alt ''tool_code'' 3) (fence_alt ''tool_result'' 4) accept (drop i s)
      no_captures = None"
    by (simp add: no_fence_iff)
  then show ?thesis
    by (simp add: match_at_def blockRegex_def m_alt_def [of tag_alt] tag_alt_eq del: One_nat_def
        split: option.splits)
qed

lemma no_fence_no_match:
  "no_fence s \<Longrightarrow> i \<le> length s \<Longrightarrow> match_at s i = None \<Longrightarrow> tag_block (drop i s) = None"
  by (simp add: no_fence_match_at split: option.splits prod.splits)

lemma replace_tag_blocks_skip:
  assumes "\<And>j. i \<le> j \<Longrightarrow> j < st \<Longrightarrow> tag_block (drop j s) = None"
    and "i \<le> st" and "st \<le> length s"
  shows "replace_tag_blocks f (drop i s) = substring s i st @ replace_tag_blocks f (drop st s)"
  using assms
proof (induction "st - i" arbitrary: i)
  case 0
  then show ?case by (simp add: substring_le)
next
  case (Suc n)
  then have lt: "i < st" "i < length s" by simp_all
  then have d: "drop i s = s ! i # drop (Suc i) s" by (simp add: Cons_nth_drop_Suc)
  from Suc.prems(1) [of i] lt have "tag_block (drop i s) = None" by simp
  with d have "replace_tag_blocks f (drop i s) = s ! i # replace_tag_blocks f (drop (Suc i) s)"
    by simp
  also have "replace_tag_blocks f (drop (Suc i) s) =
      substring s (Suc i) st @ replace_tag_blocks f (drop st s)"
    using Suc.hyps(2) Suc.prems lt by (intro Suc.hyps(1)) simp_all
  finally have step: "replace_tag_blocks f (drop i s) =
      (s ! i # substring s (Suc i) st) @ replace_tag_blocks f (drop st s)" by simp
  have "s ! i # substring s (Suc i) st = substring s i st"
  proof -
    from lt Suc.prems(3) have "substring s i st = take (st - i) (s ! i # drop (Suc i) s)"
      by (simp add: substring_le d)
    also from lt have "\<dots> = s ! i # take (st - Suc i) (drop (Suc i) s)"
    proof -
      from lt obtain n' where n': "st - i = Suc n'" by (cases "st - i") simp_all
      then have "st - Suc i = n'" by simp
      with n' show ?thesis by simp
    qed
    finally show ?thesis using lt Suc.prems(3) by (simp add: substring_le)
  qed
  with step show ?case by simp
qed

lemma parse_loop_values:
  assumes nf: "no_fence s"
  shows "i \<le> length s \<Longrightarrow>
     concat_values (fst (parse_loop s i)) = replace_tag_blocks trim (drop i s)"
proof (induction i rule: cursor_induct [where s = s])
  case (step i)
  show ?case
  proof (cases "regex_exec s i")
    case None
    have "tag_block (drop j s) = None" if "i \<le> j" "j < length s" for j
      using regex_exec_None [OF None, of j] that no_fence_no_match [OF nf, of j]
      by simp
    from replace_tag_blocks_skip [of i "length s" s trim, OF this] step.prems
    have "replace_tag_blocks trim (drop i s) = substring s i (length s)" by simp
    with None step.prems show ?thesis
      by (auto simp: parse_loop_None concat_values_def substring_from_def substring_le)
  next
    case (Some r)
    then obtain st e c where ex: "regex_exec s i = Some (st, e, c)" by (cases r) auto
    from regex_exec_bounds [OF ex] have b: "i \<le> st" "st < e" "e \<le> length s" by simp_all
    from regex_exec_Some [OF ex] have m: "match_at s st = Some (e, c)"
      and before: "\<And>j. i \<le> j \<Longrightarrow> j < st \<Longrightarrow> match_at s j = None" by simp_all
    have "tag_block (drop j s) = None" if "i \<le> j" "j < st" for j
      using before [of j] that b no_fence_no_match [OF nf, of j]
      by simp
    from replace_tag_blocks_skip [of i st s trim, OF this] b
    have skip: "replace_tag_blocks trim (drop i s) =
        substring s i st @ replace_tag_blocks trim (drop st s)" by simp
    from m no_fence_match_at [OF nf, of st] b obtain T a rest
      where tb: "tag_block (drop st s) = Some (T, a, rest)" and e: "e = length s - length rest"
        and c: "c = no_captures(1 := Some T, 2 := Some a)"
      by (auto split: option.splits)
    from tag_block_Some [OF tb] have T: "T \<in> set tag_names"
      and d: "drop st s = js ''<'' @ T @ js ''>'' @ a @ js ''</'' @ T @ js ''>'' @ rest"
      by simp_all
    from b have "drop st s \<noteq> []" by simp
    then obtain x r' where xr: "drop st s = x # r'" by (cases "drop st s") auto
    with tb have blk: "replace_tag_blocks trim (drop st s) = trim a @ replace_tag_blocks trim rest"
      by simp
    have "length (drop st s) = length (js ''<'' @ T @ js ''>'' @ a @ js ''</'' @ T @ js ''>'') + length rest"
      by (simp only: d length_append)
    with e b have "e = st + length (js ''<'' @ T @ js ''>'' @ a @ js ''</'' @ T @ js ''>'')"
      by simp
    then have "drop e s = drop (length (js ''<'' @ T @ js ''>'' @ a @ js ''</'' @ T @ js ''>'')) (drop st s)"
      by (simp add: add.commute)
    also have "\<dots> = rest" by (simp only: d) simp
    finally have rest: "rest = drop e s" by simp
    from classify_tag [OF T, of "substring s st e" a] c
    have "classify (substring s st e) c = Inr [Reasoning (trim a)]" by simp
    from parse_loop_Some [OF ex this]
    have "concat_values (fst (parse_loop s i)) =
        concat_values (text_before s i st) @ trim a @ concat_values (fst (parse_loop s e))"
      by (simp add: concat_values_def)
    also from b have "concat_values (text_before s i st) = substring s i st"
      by (cases "i < st") (simp_all add: concat_values_def text_before_def substring_le)
    also from step.IH [OF ex] b have "concat_values (fst (parse_loop s e)) =
        replace_tag_blocks trim (drop e s)" by simp
    finally show ?thesis using skip blk rest by simp
  qed
qed


subsection \<open>Documents whose blocks are not nested\<close>

text \<open>
  \<open>plain_text_ok t\<close>: no opening tag occurs in \<open>t\<close>. \<open>flat_document ps\<close>: every block of
  \<open>ps\<close> has one of the three tags and holds plain text in which its closing tag does not
  occur, every plain piece is free of opening tags, and consecutive plain pieces are
  written as one.
\<close>

definition plain_text_ok :: "jsstring \<Rightarrow> bool" where
  "plain_text_ok t \<longleftrightarrow> list_all (\<lambda>T. split_first (js ''<'' @ T @ js ''>'') t = None) tag_names"

fun flat_document :: "piece list \<Rightarrow> bool" where
  "flat_document [] \<longleftrightarrow> True"
| "flat_document (Plain t # ps) \<longleftrightarrow>
     plain_text_ok t \<and> (case ps of Plain u # qs \<Rightarrow> False | _ \<Rightarrow> True) \<and> flat_document ps"
| "flat_document (Block T [Plain x] # ps) \<longleftrightarrow>
     T \<in> set tag_names \<and> split_first (js ''</'' @ T @ js ''>'') x = None \<and> flat_document ps"
| "flat_document (Block T qs # ps) \<longleftrightarrow> False"

lemma other_opening_tag:
  "T \<in> set tag_names \<Longrightarrow> T' \<in> set tag_names \<Longrightarrow> T' \<noteq> T \<Longrightarrow>
     strip_prefix (js ''<'' @ T' @ js ''>'') (js ''<'' @ T @ js ''>'' @ r) = None"
  by (auto simp: tag_names_def js_def)

lemma tag_block_of_block:
  assumes "T \<in> set tag_names" and "split_first (js ''</'' @ T @ js ''>'') x = None"
  shows "tag_block_of T (js ''<'' @ T @ js ''>'' @ x @ js ''</'' @ T @ js ''>'' @ R) = Some (x, R)"
proof -
  have w: "js ''</'' @ T @ js ''>'' = 60 # (47 # T @ [62])" by (simp add: js_def)
  from assms(1) have "60 \<notin> set (47 # T @ [62])"
    by (auto simp: tag_names_def js_def)
  from split_first_append [OF w this assms(2), of R]
  have "split_first (js ''</'' @ T @ js ''>'') (x @ (js ''</'' @ T @ js ''>'') @ R) = Some (x, R)" .
  moreover have "strip_prefix (js ''<'' @ T @ js ''>'')
      (js ''<'' @ T @ js ''>'' @ x @ js ''</'' @ T @ js ''>'' @ R) =
      Some (x @ (js ''</'' @ T @ js ''>'') @ R)"
    by (simp add: strip_prefix_Some)
  ultimately show ?thesis by (simp add: tag_block_of_def)
qed

lemma tag_block_of_other:
  "T \<in> set tag_names \<Longrightarrow> T' \<in> set tag_names \<Longrightarrow> T' \<noteq> T \<Longrightarrow>
     tag_block_of T' (js ''<'' @ T @ js ''>'' @ r) = None"
  by (simp add: tag_block_of_def other_opening_tag)

lemma tag_block_block:
  assumes T: "T \<in> set tag_names" and x: "split_first (js ''</'' @ T @ js ''>'') x = None"
  shows "tag_block (js ''<'' @ T @ js ''>'' @ x @ js ''</'' @ T @ js ''>'' @ R) = Some (T, x, R)"
proof -
  let ?s = "js ''<'' @ T @ js ''>'' @ x @ js ''</'' @ T @ js ''>'' @ R"
  note this_tag = tag_block_of_block [OF T x, of R]
  have names: "js ''task'' \<in> set tag_names" "js ''environment_details'' \<in> set tag_names"
    "js ''thinking'' \<in> set tag_names"
    by (simp_all add: tag_names_def)
  have distinct: "js ''task'' \<noteq> js ''environment_details''" "js ''task'' \<noteq> js ''thinking''"
    "js ''environment_details'' \<noteq> js ''thinking''"
    by (simp_all add: js_def)
  from T consider "T = js ''task''" | "T = js ''environment_details''" | "T = js ''thinking''"
    by (auto simp: tag_names_def)
  then show ?thesis
  proof cases
    case 1
    with this_tag show ?thesis by (simp add: tag_block_def)
  next
    case 2
    from tag_block_of_other [OF T names(1), of "x @ js ''</'' @ T @ js ''>'' @ R"] 2 distinct
    have "tag_block_of (js ''task'') ?s = None" by simp
    with this_tag 2 show ?thesis by (simp add: tag_block_def)
  next
    case 3
    from tag_block_of_other [OF T names(1), of "x @ js ''</'' @ T @ js ''>'' @ R"] 3 distinct
    have "tag_block_of (js ''task'') ?s = None" by simp
    moreover
    from tag_block_of_other [OF T names(2), of "x @ js ''</'' @ T @ js ''>'' @ R"] 3 distinct
    have "tag_block_of (js ''environment_details'') ?s = None" by simp
    ultimately show ?thesis using this_tag 3 by (simp add: tag_block_def)
  qed
qed

lemma strip_prefix_straddle:
  assumes w: "w = x0 # w'" "x0 \<notin> set w'"
    and m: "strip_prefix w (u @ R) = Some r'"
    and u: "u \<noteq> []" and R: "R = [] \<or> hd R = x0"
  shows "\<exists>r''. u = w @ r''"
proof -
  from m have "u @ R = w @ r'" by (simp add: strip_prefix_Some)
  then consider us where "u = w @ us" | us where "u @ us = w" "R = us @ r'"
    by (auto simp: append_eq_append_conv2)
  then show ?thesis
  proof cases
    case 1
    then show ?thesis by blast
  next
    case 2
    show ?thesis
    proof (cases us)
      case Nil
      with 2 have "u = w @ []" by simp
      then show ?thesis by blast
    next
      case (Cons y us')
      with 2(2) R have "y = x0" by auto
      from u obtain z u' where "u = z # u'" by (cases u) auto
      with 2(1) Cons \<open>y = x0\<close> w have "w' = u' @ x0 # us'" by simp
      with w show ?thesis by simp
    qed
  qed
qed

lemma plain_no_tag_block:
  assumes ok: "plain_text_ok t" and t: "t = a @ u" and u: "u \<noteq> []"
    and R: "R = [] \<or> hd R = 60"
  shows "tag_block (u @ R) = None"
proof -
  have "tag_block_of T (u @ R) = None" if T: "T \<in> set tag_names" for T
  proof (cases "strip_prefix (js ''<'' @ T @ js ''>'') (u @ R)")
    case None
    then show ?thesis by (simp add: tag_block_of_def)
  next
    case (Some r')
    have w: "js ''<'' @ T @ js ''>'' = 60 # (T @ [62])" by (simp add: js_def)
    from T have "60 \<notin> set (T @ [62])" by (auto simp: tag_names_def js_def)
    from strip_prefix_straddle [OF w this Some u R] obtain r''
      where "u = (js ''<'' @ T @ js ''>'') @ r''" by blast
    with t have "t = a @ (js ''<'' @ T @ js ''>'') @ r''" by simp
    then have "split_first (js ''<'' @ T @ js ''>'') t \<noteq> None"
      by (simp only: split_first_None_iff) blast
    with ok T show ?thesis by (simp add: plain_text_ok_def list_all_iff)
  qed
  then show ?thesis by (simp add: tag_block_def tag_names_def)
qed

lemma replace_tag_blocks_plain:
  assumes ok: "plain_text_ok t" and R: "R = [] \<or> hd R = 60"
  shows "replace_tag_blocks f (t @ R) = t @ replace_tag_blocks f R"
proof -
  have "t = a @ u \<Longrightarrow> replace_tag_blocks f (u @ R) = u @ replace_tag_blocks f R" for a u
  proof (induction u arbitrary: a)
    case Nil
    show ?case by simp
  next
    case (Cons x u)
    from plain_no_tag_block [OF ok Cons.prems _ R] have "tag_block ((x # u) @ R) = None" by simp
    then have "replace_tag_blocks f ((x # u) @ R) = x # replace_tag_blocks f (u @ R)" by simp
    moreover from Cons.prems have "t = (a @ [x]) @ u" by simp
    from Cons.IH [OF this] have "replace_tag_blocks f (u @ R) = u @ replace_tag_blocks f R" .
    ultimately show ?case by simp
  qed
  from this [of "[]" t] show ?thesis by simp
qed

lemma render_flat_head:
  "flat_document (Plain t # ps) \<Longrightarrow> concat (map render ps) = [] \<or> hd (concat (map render ps)) = 60"
proof (cases ps)
  case Nil
  then show ?thesis by simp
next
  case (Cons p qs)
  assume "flat_document (Plain t # ps)"
  with Cons obtain T rs where "p = Block T rs" by (cases p) auto
  with Cons show ?thesis by (simp add: js_def)
qed

lemma flat_document_replace:
  "flat_document ps \<Longrightarrow>
     replace_tag_blocks trim (concat (map render ps)) = concat (map delimiters_removed_trimmed ps)"
proof (induction ps rule: flat_document.induct)
  case 1
  show ?case by simp
next
  case (2 t ps)
  from render_flat_head [OF "2.prems"] "2.prems"
  have "replace_tag_blocks trim (t @ concat (map render ps)) =
      t @ replace_tag_blocks trim (concat (map render ps))"
    by (intro replace_tag_blocks_plain) simp_all
  with 2 show ?case by simp
next
  case (3 T x ps)
  let ?R = "concat (map render ps)"
  from "3.prems" have T: "T \<in> set tag_names"
    and x: "split_first (js ''</'' @ T @ js ''>'') x = None" and ps: "flat_document ps"
    by simp_all
  have "js ''<'' @ T @ js ''>'' @ x @ js ''</'' @ T @ js ''>'' @ ?R =
      60 # T @ js ''>'' @ x @ js ''</'' @ T @ js ''>'' @ ?R"
    by (simp add: js_def)
  with tag_block_block [OF T x, of ?R]
  have "replace_tag_blocks trim (js ''<'' @ T @ js ''>'' @ x @ js ''</'' @ T @ js ''>'' @ ?R) =
      trim x @ replace_tag_blocks trim ?R"
    by simp
  with "3.IH" [OF ps] show ?case by simp
qed simp_all


text \<open>
  Claim C5, as stated, fails on nested blocks: the text inside a recognized block is not
  scanned again, so the delimiters of a block inside a block stay in the value.
\<close>

theorem nested_delimiters_kept:
  "render (Block (js ''task'') [Block (js ''thinking'') [Plain (js ''a'')]]) =
     js ''<task><thinking>a</thinking></task>'' \<and>
   no_fence (js ''<task><thinking>a</thinking></task>'') \<and>
   concat_values (fst (parseClarifaiOutput (js ''<task><thinking>a</thinking></task>''))) =
     js ''<thinking>a</thinking>'' \<and>
   delimiters_removed_trimmed (Block (js ''task'') [Block (js ''thinking'') [Plain (js ''a'')]]) =
     js ''a'' \<and>
   concat_values (fst (parseClarifaiOutput (js ''<task><thinking>a</thinking></task>''))) \<noteq>
     delimiters_removed_trimmed (Block (js ''task'') [Block (js ''thinking'') [Plain (js ''a'')]])"
proof -
  have 1: "concat_values (fst (parseClarifaiOutput (js ''<task><thinking>a</thinking></task>''))) =
      js ''<thinking>a</thinking>''"
    by (simp add: run_defs concat_values_def)
  have 2: "no_fence (js ''<task><thinking>a</thinking></task>'')"
    by (simp add: no_fence_def run_defs)
  have 3: "delimiters_removed_trimmed (Block (js ''task'') [Block (js ''thinking'') [Plain (js ''a'')]]) =
      js ''a''"
    by (simp add: js_def trim_def is_space_def)
  have 4: "render (Block (js ''task'') [Block (js ''thinking'') [Plain (js ''a'')]]) =
      js ''<task><thinking>a</thinking></task>''"
    by (simp add: js_def)
  from 1 2 3 4 show ?thesis by (simp add: js_def)
qed

text \<open>
  Claim C5, amended. For an input without fenced blocks, the values of the chunks,
  concatenated in emission order, are the input in which every tag block the scan
  recognizes (an opening tag with the first closing tag of its name after it, the text
  between them not scanned again) has lost its two delimiters and has its inner content
  trimmed. For an input of plain text and well-formed tag blocks that are not nested,
  this is the input with all tag delimiters removed and the inner content of every block
  trimmed.
\<close>

theorem values_are_input_without_delimiters:
  "(no_fence s \<longrightarrow>
      concat_values (fst (parseClarifaiOutput s)) = replace_tag_blocks trim s) \<and>
   (flat_document ps \<and> no_fence (concat (map render ps)) \<longrightarrow>
      concat_values (fst (parseClarifaiOutput (concat (map render ps)))) =
        concat (map delimiters_removed_trimmed ps))"
proof (intro conjI impI)
  assume "no_fence s"
  from parse_loop_values [OF this, of 0]
  show "concat_values (fst (parseClarifaiOutput s)) = replace_tag_blocks trim s"
    by (simp add: parseClarifaiOutput_def)
next
  assume a: "flat_document ps \<and> no_fence (concat (map render ps))"
  then have "concat_values (fst (parse_loop (concat (map render ps)) 0)) =
      replace_tag_blocks trim (drop 0 (concat (map render ps)))"
    by (intro parse_loop_values) simp_all
  with a flat_document_replace [of ps]
  show "concat_values (fst (parseClarifaiOutput (concat (map render ps)))) =
        concat (map delimiters_removed_trimmed ps)"
    by (simp add: parseClarifaiOutput_def)
qed

definition example_document :: "piece list" where
  "example_document =
     [Plain (js ''Hi ''), Block (js ''task'') [Plain (js '' a '')], Plain (js '',''),
      Block (js ''thinking'') [Plain (js ''b'')], Plain (js ''!'')]"

theorem values_are_input_without_delimiters_witness:
  "flat_document example_document \<and>
   concat (map render example_document) = js ''Hi <task> a </task>,<thinking>b</thinking>!'' \<and>
   no_fence (js ''Hi <task> a </task>,<thinking>b</thinking>!'') \<and>
   concat_values (fst (parseClarifaiOutput (js ''Hi <task> a </task>,<thinking>b</thinking>!''))) =
     js ''Hi a,b!'' \<and>
   replace_tag_blocks trim (js ''Hi <task> a </task>,<thinking>b</thinking>!'') = js ''Hi a,b!'' \<and>
   concat (map delimiters_removed_trimmed example_document) = js ''Hi a,b!''"
proof -
  let ?s = "js ''Hi <task> a </task>,<thinking>b</thinking>!''"
  have 1: "no_fence ?s"
    by (simp add: no_fence_def run_defs)
  have 2: "flat_document example_document"
    by (simp add: example_document_def plain_text_ok_def tag_names_def js_def)
  have 3: "concat (map render example_document) = ?s"
    by (simp add: example_document_def js_def)
  have 4: "concat (map delimiters_removed_trimmed example_document) = js ''Hi a,b!''"
    by (simp add: example_document_def js_def trim_def is_space_def)
  note claim = values_are_input_without_delimiters [of ?s example_document]
  from claim 1
  have a: "concat_values (fst (parseClarifaiOutput ?s)) = replace_tag_blocks trim ?s"
    by blast
  from 1 have "no_fence (concat (map render example_document))"
    by (simp only: 3)
  with claim 2
  have "concat_values (fst (parseClarifaiOutput (concat (map render example_document)))) =
      concat (map delimiters_removed_trimmed example_document)"
    by blast
  then have b: "concat_values (fst (parseClarifaiOutput ?s)) =
      concat (map delimiters_removed_trimmed example_document)"
    by (simp only: 3)
  from b 4 have c: "concat_values (fst (parseClarifaiOutput ?s)) = js ''Hi a,b!''"
    by (simp only:)
  from a c have d: "replace_tag_blocks trim ?s = js ''Hi a,b!''"
    by (simp only:)
  from 1 2 3 4 c d show ?thesis by (intro conjI)
qed

section \<open>The flattened request text\<close>

text \<open>
  The text the specification describes: \<open>System: <prompt>\<close> and two newlines when a
  system prompt is present, then for each user or assistant message, in order, the
  label, the text of the message and two newlines. The text of a message is its string
  content, or the text parts of its array content joined with a newline, a part that is
  not text counting as the empty string.
\<close>

definition part_text :: "content_block \<Rightarrow> jsstring" where
  "part_text b = (case b of TextBlock t \<Rightarrow> t | OtherBlock \<Rightarrow> [])"

fun joined_with_newline :: "jsstring list \<Rightarrow> jsstring" where
  "joined_with_newline [] = []"
| "joined_with_newline (x # xs) = x @ concat (map (\<lambda>y. 10 # y) xs)"

definition message_text :: "message \<Rightarrow> jsstring" where
  "message_text m =
     (case content m of
        StringContent str \<Rightarrow> str
      | ArrayContent parts \<Rightarrow> joined_with_newline (map part_text parts))"

definition labelled :: "message \<Rightarrow> jsstring" where
  "labelled m =
     (case role m of
        User \<Rightarrow> js ''User: '' @ message_text m @ [10, 10]
      | Assistant \<Rightarrow> js ''Assistant: '' @ message_text m @ [10, 10]
      | OtherRole \<Rightarrow> [])"

definition flattened :: "jsstring \<Rightarrow> message list \<Rightarrow> jsstring" where
  "flattened systemPrompt history =
     (if systemPrompt = [] then [] else js ''System: '' @ systemPrompt @ [10, 10]) @
     concat (map labelled history)"

lemma js_newline [simp]: "js ''\<newline>'' = [10]" "js ''\<newline>\<newline>'' = [10, 10]"
  by (simp_all add: js_def)

lemma join_newline_Cons: "join [10] (x # xs) = x @ concat (map (\<lambda>y. 10 # y) xs)"
  by (induction xs arbitrary: x) simp_all

lemma join_newline: "join [10] xs = joined_with_newline xs"
  by (cases xs) (simp_all add: join_newline_Cons)

lemma content_text_eq: "content_text (content m) = message_text m"
  by (simp add: content_text_def message_text_def join_newline part_text_def [abs_def]
      split: content.splits)

lemma append_message_eq: "append_message acc m = acc @ labelled m"
  by (simp add: append_message_def labelled_def content_text_eq split: role.splits)

lemma foldl_append_message: "foldl append_message acc ms = acc @ concat (map labelled ms)"
  by (induction ms arbitrary: acc) (simp_all add: append_message_eq)

lemma build_input_text_eq: "build_input_text systemPrompt messages = flattened systemPrompt messages"
  by (simp add: build_input_text_def flattened_def foldl_append_message)

lemma stream_requests:
  "req \<in> set (requests (stream options post systemPrompt messages)) \<Longrightarrow>
     config_error options = None \<and> req = build_request options systemPrompt messages"
  by (auto simp: stream_def Let_def split: option.splits http_outcome.splits prod.splits)

lemma raw_build_request [simp]:
  "raw (build_request options systemPrompt messages) = build_input_text systemPrompt messages"
  by (simp add: build_request_def Let_def)

text \<open>
  Claim C8. The text \<open>stream\<close> builds, and sends as the \<open>raw\<close> text of every request it
  makes, is the flattened text of the specification; the system prompt \<open>hi\<close> with the
  history of one user message \<open>hello\<close> flattens to \<open>System: hi\n\nUser: hello\n\n\<close>.
\<close>

theorem request_text_is_flattened:
  "build_input_text systemPrompt messages = flattened systemPrompt messages \<and>
   (\<forall>req\<in>set (requests (stream options post systemPrompt messages)).
      raw req = flattened systemPrompt messages) \<and>
   build_input_text (js ''hi'') [\<lparr>role = User, content = StringContent (js ''hello'')\<rparr>] =
     js ''System: hi\<newline>\<newline>User: hello\<newline>\<newline>''"
proof (intro conjI ballI)
  show "build_input_text systemPrompt messages = flattened systemPrompt messages"
    by (rule build_input_text_eq)
next
  fix req
  assume "req \<in> set (requests (stream options post systemPrompt messages))"
  from stream_requests [OF this] show "raw req = flattened systemPrompt messages"
    by (simp add: build_input_text_eq)
next
  show "build_input_text (js ''hi'') [\<lparr>role = User, content = StringContent (js ''hello'')\<rparr>] =
     js ''System: hi\<newline>\<newline>User: hello\<newline>\<newline>''"
    by (simp add: build_input_text_def append_message_def content_text_def js_def)
qed

definition example_options :: ApiHandlerOptions where
  "example_options =
     \<lparr>clarifaiPat = Some (js ''key''), apiModelId = Some (js ''u/a/models/m''),
      clarifaiApiBaseUrl = None\<rparr>"

lemma example_options_ok: "config_error example_options = None"
  by (simp add: config_error_def example_options_def js_def)

theorem request_text_is_flattened_witness:
  "map raw (requests (stream example_options (\<lambda>req. Cancelled) (js ''hi'')
      [\<lparr>role = User, content = ArrayContent [TextBlock (js ''a''), OtherBlock, TextBlock (js ''b'')]\<rparr>,
       \<lparr>role = Assistant, content = StringContent (js ''ok'')\<rparr>])) =
     [js ''System: hi\<newline>\<newline>User: a\<newline>\<newline>b\<newline>\<newline>Assistant: ok\<newline>\<newline>'']"
proof -
  let ?ms = "[\<lparr>role = User, content = ArrayContent [TextBlock (js ''a''), OtherBlock, TextBlock (js ''b'')]\<rparr>,
       \<lparr>role = Assistant, content = StringContent (js ''ok'')\<rparr>]"
  let ?req = "build_request example_options (js ''hi'') ?ms"
  have r: "requests (stream example_options (\<lambda>req. Cancelled) (js ''hi'') ?ms) = [?req]"
    by (simp add: stream_def example_options_ok)
  then have "?req \<in> set (requests (stream example_options (\<lambda>req. Cancelled) (js ''hi'') ?ms))"
    by simp
  with request_text_is_flattened [of "js ''hi''" ?ms example_options "\<lambda>req. Cancelled"]
  have "raw ?req = flattened (js ''hi'') ?ms" by blast
  also have "\<dots> = js ''System: hi\<newline>\<newline>User: a\<newline>\<newline>b\<newline>\<newline>Assistant: ok\<newline>\<newline>''"
    by (simp add: flattened_def labelled_def message_text_def part_text_def js_def)
  finally show ?thesis using r by simp
qed

section \<open>Configuration errors\<close>

text \<open>
  Claim C6. When the access token is absent, the model id is absent, or the model id
  does not split at \<open>/\<close> into exactly four segments with the third equal to \<open>models\<close>,
  \<open>stream\<close> throws the error of the failed check, makes no network request and yields
  no chunk.
\<close>

theorem configuration_error_before_network:
  assumes "clarifaiPat options = None \<or> clarifaiPat options = Some [] \<or>
           apiModelId options = None \<or> apiModelId options = Some [] \<or>
           (\<exists>modelId. apiModelId options = Some modelId \<and>
              \<not> (length (split_on 47 modelId) = 4 \<and> split_on 47 modelId ! 2 = js ''models''))"
  shows "requests (stream options post systemPrompt messages) = [] \<and>
         chunks (stream options post systemPrompt messages) = [] \<and>
         (\<exists>err. thrown (stream options post systemPrompt messages) = Some err \<and>
                config_error options = Some err)"
proof -
  from assms have "config_error options \<noteq> None"
    by (auto simp: config_error_def Let_def split: option.splits)
  then obtain err where "config_error options = Some err" by blast
  then show ?thesis by (simp add: stream_def)
qed

theorem configuration_error_before_network_witness:
  "\<not> (length (split_on 47 (js ''abc/def'')) = 4 \<and> split_on 47 (js ''abc/def'') ! 2 = js ''models'') \<and>
   stream \<lparr>clarifaiPat = Some (js ''key''), apiModelId = Some (js ''abc/def''),
           clarifaiApiBaseUrl = None\<rparr> (\<lambda>req. Resolved 200 None) (js ''hi'') [] =
     \<lparr>requests = [], chunks = [],
      thrown = Some (Error (js ''Invalid Clarifai Model ID format: abc/def. Expected format: user_id/app_id/models/model_name.''))\<rparr>"
proof -
  let ?o = "\<lparr>clarifaiPat = Some (js ''key''), apiModelId = Some (js ''abc/def''),
           clarifaiApiBaseUrl = None\<rparr>"
  have 1: "\<not> (length (split_on 47 (js ''abc/def'')) = 4 \<and>
      split_on 47 (js ''abc/def'') ! 2 = js ''models'')"
    by (simp add: js_def)
  have 2: "config_error ?o = Some (Error (js ''Invalid Clarifai Model ID format: abc/def. Expected format: user_id/app_id/models/model_name.''))"
    by (simp add: config_error_def js_def)
  from 1 have "clarifaiPat ?o = None \<or> clarifaiPat ?o = Some [] \<or>
           apiModelId ?o = None \<or> apiModelId ?o = Some [] \<or>
           (\<exists>modelId. apiModelId ?o = Some modelId \<and>
              \<not> (length (split_on 47 modelId) = 4 \<and> split_on 47 modelId ! 2 = js ''models''))"
    by simp
  from configuration_error_before_network [OF this, of "\<lambda>req. Resolved 200 None" "js ''hi''" "[]"] 1 2
  show ?thesis by auto
qed

section \<open>Cancellation\<close>

text \<open>
  Claim C7. When the network request of a call ends with a cancellation, the call
  yields no chunk and throws nothing.
\<close>

theorem cancellation_is_silent:
  assumes "req \<in> set (requests (stream options post systemPrompt messages))"
    and "post req = Cancelled"
  shows "chunks (stream options post systemPrompt messages) = [] \<and>
         thrown (stream options post systemPrompt messages) = None"
proof -
  from stream_requests [OF assms(1)] have "config_error options = None"
    and "req = build_request options systemPrompt messages" by simp_all
  with assms(2) show ?thesis by (simp add: stream_def)
qed

theorem cancellation_is_silent_witness:
  "stream example_options (\<lambda>req. Cancelled) (js ''hi'') [] =
     \<lparr>requests = [build_request example_options (js ''hi'') []], chunks = [], thrown = None\<rparr>"
proof -
  let ?req = "build_request example_options (js ''hi'') []"
  have r: "requests (stream example_options (\<lambda>req. Cancelled) (js ''hi'') []) = [?req]"
    by (simp add: stream_def example_options_ok)
  then have "?req \<in> set (requests (stream example_options (\<lambda>req. Cancelled) (js ''hi'') []))"
    by simp
  from cancellation_is_silent [OF this] r show ?thesis by simp
qed

section \<open>Successful responses\<close>

lemma stream_resolved:
  assumes "config_error options = None"
    and "post (build_request options systemPrompt messages) = Resolved status data"
  shows "stream options post systemPrompt messages =
     \<lparr>requests = [build_request options systemPrompt messages],
      chunks = fst (on_response status data),
      thrown = map_option (\<lambda>err. rethrow (message err)) (snd (on_response status data))\<rparr>"
  using assms
  by (cases "on_response status data") (auto simp: stream_def Let_def split: option.splits)

definition hello_envelope :: envelope where
  "hello_envelope =
     \<lparr>outputs = Some [Some (js ''Hello <thinking>ponder</thinking> world'')],
      status_code = None, status_description = None\<rparr>"

lemma hello_parsed:
  "parseClarifaiOutput (js ''Hello <thinking>ponder</thinking> world\<newline>'') =
     ([Text (js ''Hello ''), Reasoning (js ''ponder''), Text (js '' world\<newline>'')], None)"
  by (simp add: run_defs)

lemma hello_response:
  "on_response 200 (Some hello_envelope) =
     ([Text (js ''Hello ''), Reasoning (js ''ponder''), Text (js '' world\<newline>'')], None)"
proof -
  have f: "full_output_text [Some (js ''Hello <thinking>ponder</thinking> world'')] =
      js ''Hello <thinking>ponder</thinking> world\<newline>''"
    by (simp add: full_output_text_def js_def)
  have l: "js ''Hello <thinking>ponder</thinking> world\<newline>'' \<noteq> []"
    by (simp add: js_def)
  show ?thesis
    by (simp add: on_response_def hello_envelope_def f l hello_parsed Let_def)
qed

text \<open>
  Claim C2, as stated, fails: the text of every output is followed by a newline before
  it is tokenized, so the last chunk is \<open>" world\n"\<close>, not \<open>" world"\<close>.
\<close>

theorem hello_chunks_not_as_claimed:
  "chunks (stream example_options (\<lambda>req. Resolved 200 (Some hello_envelope)) [] []) \<noteq>
     [Text (js ''Hello ''), Reasoning (js ''ponder''), Text (js '' world'')]"
  using stream_resolved [of example_options "\<lambda>req. Resolved 200 (Some hello_envelope)" "[]" "[]"
      200 "Some hello_envelope", OF example_options_ok]
  by (simp add: hello_response) (simp add: js_def)

text \<open>
  Claim C2, amended. For the success envelope with the one output
  \<open>Hello <thinking>ponder</thinking> world\<close> and the status 200, \<open>stream\<close> yields exactly
  the text chunk \<open>"Hello "\<close>, the reasoning chunk \<open>"ponder"\<close> and the text chunk
  \<open>" world\n"\<close>, in that order, and throws nothing.
\<close>

theorem hello_chunks:
  assumes "config_error options = None"
    and "post (build_request options systemPrompt messages) = Resolved 200 (Some hello_envelope)"
  shows "chunks (stream options post systemPrompt messages) =
           [Text (js ''Hello ''), Reasoning (js ''ponder''), Text (js '' world\<newline>'')] \<and>
         thrown (stream options post systemPrompt messages) = None"
  using stream_resolved [of options post systemPrompt messages 200 "Some hello_envelope", OF assms]
  by (simp add: hello_response)

theorem hello_chunks_witness:
  "config_error example_options = None \<and>
   chunks (stream example_options (\<lambda>req. Resolved 200 (Some hello_envelope)) (js ''hi'') []) =
     [Text (js ''Hello ''), Reasoning (js ''ponder''), Text (js '' world\<newline>'')] \<and>
   thrown (stream example_options (\<lambda>req. Resolved 200 (Some hello_envelope)) (js ''hi'') []) = None"
  using hello_chunks [OF example_options_ok, of "\<lambda>req. Resolved 200 (Some hello_envelope)" "js ''hi''" "[]"]
    example_options_ok
  by simp

text \<open>An output is usable when its text exists and is not empty.\<close>

definition usable :: "jsstring option \<Rightarrow> bool" where
  "usable output \<longleftrightarrow> output \<noteq> None \<and> output \<noteq> Some []"

lemma full_output_text_unusable:
  "list_all (\<lambda>output. \<not> usable output) outs \<Longrightarrow> full_output_text outs = []"
proof -
  have "list_all (\<lambda>output. \<not> usable output) outs \<Longrightarrow>
      foldl (\<lambda>fullOutputText output.
              case output of
                None \<Rightarrow> fullOutputText
              | Some r \<Rightarrow> if r \<noteq> [] then fullOutputText @ r @ js ''\<newline>'' else fullOutputText)
        acc outs = acc" for acc
    by (induction outs arbitrary: acc) (auto simp: usable_def split: option.splits)
  then show "list_all (\<lambda>output. \<not> usable output) outs \<Longrightarrow> full_output_text outs = []"
    by (simp add: full_output_text_def)
qed

text \<open>
  Claim C3, as stated, fails for an empty \<open>outputs\<close> array: the response takes the error
  branch and \<open>stream\<close> throws.
\<close>

theorem empty_outputs_throws:
  "thrown (stream example_options
      (\<lambda>req. Resolved 200 (Some \<lparr>outputs = Some [], status_code = None, status_description = None\<rparr>))
      [] []) =
     Some (Error (js ''Clarifai stream error: Clarifai API error (200): Unknown error''))"
  using stream_resolved [of example_options
      "\<lambda>req. Resolved 200 (Some \<lparr>outputs = Some [], status_code = None, status_description = None\<rparr>)"
      "[]" "[]" 200 "Some \<lparr>outputs = Some [], status_code = None, status_description = None\<rparr>",
      OF example_options_ok]
  by (simp add: on_response_def rethrow_def api_error_def number_text_def
      show_nat.simps [of 200] show_nat.simps [of 20] show_nat.simps [of 2] js_def)

text \<open>
  Claim C3, amended. For a response with the status 200 whose \<open>outputs\<close> array is not
  empty and has no usable text, \<open>stream\<close> yields no chunk and throws nothing. When the
  \<open>outputs\<close> array is empty or absent, \<open>stream\<close> yields no chunk and throws an error.
\<close>

theorem no_usable_text_no_chunks:
  assumes "config_error options = None"
    and "post (build_request options systemPrompt messages) = Resolved 200 data"
  shows "(\<forall>env outs. data = Some env \<and> outputs env = Some outs \<and> outs \<noteq> [] \<and>
            list_all (\<lambda>output. \<not> usable output) outs \<longrightarrow>
            chunks (stream options post systemPrompt messages) = [] \<and>
            thrown (stream options post systemPrompt messages) = None) \<and>
         ((data = None \<or> (\<exists>env. data = Some env \<and> (outputs env = None \<or> outputs env = Some []))) \<longrightarrow>
            chunks (stream options post systemPrompt messages) = [] \<and>
            thrown (stream options post systemPrompt messages) \<noteq> None)"
proof (intro conjI allI impI)
  fix env outs
  assume a: "data = Some env \<and> outputs env = Some outs \<and> outs \<noteq> [] \<and>
      list_all (\<lambda>output. \<not> usable output) outs"
  then have "on_response 200 data = ([], None)"
    by (simp add: on_response_def full_output_text_unusable)
  then show "chunks (stream options post systemPrompt messages) = []"
    "thrown (stream options post systemPrompt messages) = None"
    using stream_resolved [of options post systemPrompt messages 200 data, OF assms]
    by simp_all
next
  assume "data = None \<or> (\<exists>env. data = Some env \<and> (outputs env = None \<or> outputs env = Some []))"
  then have "fst (on_response 200 data) = [] \<and> snd (on_response 200 data) \<noteq> None"
    by (auto simp: on_response_def Let_def)
  then show "chunks (stream options post systemPrompt messages) = []"
    "thrown (stream options post systemPrompt messages) \<noteq> None"
    using stream_resolved [of options post systemPrompt messages 200 data, OF assms]
    by simp_all
qed

theorem no_usable_text_no_chunks_witness:
  "config_error example_options = None \<and>
   list_all (\<lambda>output. \<not> usable output) [None, Some []] \<and>
   chunks (stream example_options
      (\<lambda>req. Resolved 200 (Some \<lparr>outputs = Some [None, Some []], status_code = None,
                                   status_description = None\<rparr>)) [] []) = [] \<and>
   thrown (stream example_options
      (\<lambda>req. Resolved 200 (Some \<lparr>outputs = Some [None, Some []], status_code = None,
                                   status_description = None\<rparr>)) [] []) = None \<and>
   chunks (stream example_options (\<lambda>req. Resolved 200 None) [] []) = [] \<and>
   thrown (stream example_options (\<lambda>req. Resolved 200 None) [] []) \<noteq> None"
proof -
  let ?env = "\<lparr>outputs = Some [None, Some []], status_code = None, status_description = None\<rparr>"
  have u: "list_all (\<lambda>output. \<not> usable output) [None, Some []]"
    by (simp add: usable_def)
  from no_usable_text_no_chunks [OF example_options_ok, of "\<lambda>req. Resolved 200 (Some ?env)" "[]" "[]" "Some ?env"] u
  have 1: "chunks (stream example_options (\<lambda>req. Resolved 200 (Some ?env)) [] []) = [] \<and>
      thrown (stream example_options (\<lambda>req. Resolved 200 (Some ?env)) [] []) = None"
    by simp
  from no_usable_text_no_chunks [OF example_options_ok, of "\<lambda>req. Resolved 200 None" "[]" "[]" None]
  have 2: "chunks (stream example_options (\<lambda>req. Resolved 200 None) [] []) = [] \<and>
      thrown (stream example_options (\<lambda>req. Resolved 200 None) [] []) \<noteq> None"
    by simp
  from 1 2 u example_options_ok show ?thesis by simp
qed

end
